theory Spec2Isabelle
  imports Main "HOL-Library.Word"
begin

unbundle bit_operations_syntax

section \<open>Machine types and failures\<close>

text \<open>
  \<open>uint8_t\<close> and \<open>uint64_t\<close> are words; \<open>TYPE\<close> is \<open>uint64_t\<close> in both
  instantiations (\<open>iptree\<close>, \<open>ip2tree\<close>) and \<open>size_t\<close> is taken to be 64 bits wide.
  Bit indices, byte counts and depths are small non-negative numbers (at most
  \<open>8 * ADDRBYTES + 1\<close>) and are natural numbers; the one expression on them whose
  wrap-around matters, \<open>(7-i)&7\<close>, is computed on 64-bit words.

  Whatever ends the C++ program abnormally is a value of \<open>error\<close>: a dereferenced null
  (or dangling) pointer, a failed \<open>assert\<close>, and an access outside a buffer.
\<close>

type_synonym u8 = "8 word"
type_synonym u64 = "64 word"

datatype error = NullDeref | AssertFailed | OutOfBounds

section \<open>Byte buffers\<close>

text \<open>\<open>iptreet::bit\<close>: \<open>(addr[i / 8]) & (1<<((7-i)&7))\<close>, bit 0 is the MSB of byte 0.\<close>

definition bitpos :: "nat \<Rightarrow> nat" where
  "bitpos i = unat (((7::u64) - of_nat i) AND 7)"

definition bit_addr :: "u8 list \<Rightarrow> nat \<Rightarrow> error + bool" where
  "bit_addr a i =
     (if i div 8 < length a then Inr ((a ! (i div 8)) AND push_bit (bitpos i) 1 \<noteq> 0)
      else Inl OutOfBounds)"

text \<open>\<open>iptreet::setbit\<close>: \<open>addr[i / 8] |= (1<<((7-i)&7))\<close>.\<close>

definition setbit :: "u8 list \<Rightarrow> nat \<Rightarrow> error + u8 list" where
  "setbit a i =
     (if i div 8 < length a then Inr (a[i div 8 := (a ! (i div 8)) OR push_bit (bitpos i) 1])
      else Inl OutOfBounds)"

text \<open>\<open>memcpy(dst, src, n)\<close> and \<open>memcmp(x, y, n) == 0\<close> on buffers of known size.\<close>

definition memcpy :: "u8 list \<Rightarrow> u8 list \<Rightarrow> nat \<Rightarrow> error + u8 list" where
  "memcpy dst src n =
     (if n \<le> length dst \<and> n \<le> length src then Inr (take n src @ drop n dst)
      else Inl OutOfBounds)"

definition memcmp_eq :: "u8 list \<Rightarrow> u8 list \<Rightarrow> nat \<Rightarrow> error + bool" where
  "memcmp_eq x y n =
     (if n \<le> length x \<and> n \<le> length y then Inr (take n x = take n y)
      else Inl OutOfBounds)"

section \<open>Nodes\<close>

text \<open>
  \<open>class node\<close>: the two child pointers (\<open>None\<close> is the null pointer), the node's own tally
  and the dirty flag. A node owns its children, so the pointer structure is a tree and a
  pointer to a node is the sequence of child selections leading to it (\<open>False\<close> for
  \<open>ptr0\<close>, \<open>True\<close> for \<open>ptr1\<close>): \<open>nodeptr\<close>. The \<open>parent\<close> field of the node at
  position \<open>p\<close> is the position \<open>butlast p\<close>; the root (position \<open>[]\<close>) has none.
\<close>

datatype node = Node (ptr0: "node option") (ptr1: "node option") (tsum: u64) (dirty: bool)

type_synonym nodeptr = "bool list"

text \<open>\<open>node(node *p)\<close>\<close>

definition new_node :: node where
  "new_node = Node None None 0 False"

definition child :: "node \<Rightarrow> bool \<Rightarrow> node option" where
  "child n b = (if b then ptr1 n else ptr0 n)"

definition set_child :: "bool \<Rightarrow> node option \<Rightarrow> node \<Rightarrow> node" where
  "set_child b c n =
     (if b then Node (ptr0 n) c (tsum n) (dirty n) else Node c (ptr1 n) (tsum n) (dirty n))"

text \<open>Following a pointer from the node it is relative to; \<open>None\<close> when it dangles.\<close>

fun deref :: "node \<Rightarrow> nodeptr \<Rightarrow> node option" where
  "deref n [] = Some n"
| "deref n (b # p) = (case child n b of None \<Rightarrow> None | Some c \<Rightarrow> deref c p)"

text \<open>Writing through a pointer: the node it points to is replaced by \<open>f\<close> of it.\<close>

fun modify :: "(node \<Rightarrow> node) \<Rightarrow> nodeptr \<Rightarrow> node \<Rightarrow> node" where
  "modify f [] n = f n"
| "modify f (b # p) n =
     (case child n b of None \<Rightarrow> n | Some c \<Rightarrow> set_child b (Some (modify f p c)) n)"

text \<open>\<open>node::term\<close>\<close>

definition node_term :: "node \<Rightarrow> bool" where
  "node_term n = (if tsum n > 0 \<and> ptr0 n = None \<and> ptr1 n = None then True else False)"

text \<open>\<open>node::nodesum\<close> and \<open>node::sum\<close>\<close>

definition nodesum :: "node \<Rightarrow> u64" where
  "nodesum n = tsum n"

fun node_sum :: "node \<Rightarrow> u64" where
  "node_sum (Node p0 p1 t dty) =
     t + (case p0 of None \<Rightarrow> 0 | Some c \<Rightarrow> node_sum c)
       + (case p1 of None \<Rightarrow> 0 | Some c \<Rightarrow> node_sum c)"

text \<open>
  \<open>node::set_dirty\<close>, on the node at \<open>this\<close> in the tree below \<open>r\<close>: walks the parent links
  up to the root or to the first node that is dirty already.
\<close>

definition mark_dirty :: "node \<Rightarrow> node" where
  "mark_dirty n = Node (ptr0 n) (ptr1 n) (tsum n) True"

function set_dirty :: "nodeptr \<Rightarrow> node \<Rightarrow> node" where
  "set_dirty this r =
     (case deref r this of
        None \<Rightarrow> r
      | Some n \<Rightarrow>
          if dirty n = False then
            (let r' = modify mark_dirty this r in
             if this \<noteq> [] \<and> (case deref r' (butlast this) of
                                 None \<Rightarrow> False | Some parent \<Rightarrow> dirty parent = False)
             then set_dirty (butlast this) r' else r')
          else r)"
  by pat_completeness auto
termination
  by (relation "measure (\<lambda>(this, r). length this)") auto

declare set_dirty.simps [simp del]

text \<open>\<open>node::add\<close>, through a pointer \<open>this\<close> into the tree below \<open>r\<close>.\<close>

definition node_add :: "nodeptr \<Rightarrow> u64 \<Rightarrow> node \<Rightarrow> error + node" where
  "node_add this val r =
     (case deref r this of
        None \<Rightarrow> Inl NullDeref
      | Some _ \<Rightarrow>
          Inr (set_dirty this
                 (modify (\<lambda>n. Node (ptr0 n) (ptr1 n) (tsum n + val) (dirty n)) this r)))"

subsection \<open>The prune selector\<close>

text \<open>
  \<open>class best\<close>. \<open>best_node\<close> points to a node in the subtree of the node whose
  \<open>best_to_prune\<close> returned it, and is relative to that node.
\<close>

record best =
  best_node :: nodeptr
  depth :: nat

definition via :: "bool \<Rightarrow> error + best \<Rightarrow> error + best" where
  "via b r = (case r of Inl e \<Rightarrow> Inl e | Inr x \<Rightarrow> Inr (x\<lparr>best_node := b # best_node x\<rparr>))"

text \<open>
  \<open>node::best_to_prune\<close>. The source's chain of tests is grouped by which of the two
  child pointers are null; the comments give the source line. With both pointers null
  the tests of lines 144 to 148 fail and line 150 evaluates \<open>ptr0->term()\<close>.
\<close>

fun best_to_prune :: "node \<Rightarrow> nat \<Rightarrow> error + best" where
  "best_to_prune (Node p0 p1 t dty) my_depth =
     (if node_term (Node p0 p1 t dty) then Inl AssertFailed \<comment> \<open>143\<close>
      else case p0 of
        Some c0 \<Rightarrow>
          (case p1 of
             None \<Rightarrow>
               if node_term c0 then Inr \<lparr>best_node = [], depth = my_depth\<rparr> \<comment> \<open>144\<close>
               else via False (best_to_prune c0 (my_depth + 1)) \<comment> \<open>147\<close>
           | Some c1 \<Rightarrow>
               if node_term c0 \<and> node_term c1
               then Inr \<lparr>best_node = [], depth = my_depth\<rparr> \<comment> \<open>146\<close>
               else if node_term c0 \<and> \<not> node_term c1
               then via True (best_to_prune c1 (my_depth + 1)) \<comment> \<open>150\<close>
               else if node_term c1 \<and> \<not> node_term c0
               then via False (best_to_prune c0 (my_depth + 1)) \<comment> \<open>151\<close>
               else \<comment> \<open>154 to 165\<close>
                 (case best_to_prune c0 (my_depth + 1) of
                    Inl e \<Rightarrow> Inl e
                  | Inr ptr0_best \<Rightarrow>
                 (case best_to_prune c1 (my_depth + 1) of
                    Inl e \<Rightarrow> Inl e
                  | Inr ptr1_best \<Rightarrow>
                 (case deref c0 (best_node ptr0_best) of
                    None \<Rightarrow> Inl NullDeref
                  | Some n0 \<Rightarrow>
                 (case deref c1 (best_node ptr1_best) of
                    None \<Rightarrow> Inl NullDeref
                  | Some n1 \<Rightarrow>
                     (let ptr0_best_sum = node_sum n0;
                          ptr1_best_sum = node_sum n1
                      in if ptr0_best_sum < ptr1_best_sum then via False (Inr ptr0_best)
                         else if ptr1_best_sum < ptr0_best_sum then via True (Inr ptr1_best)
                         else if depth ptr0_best > depth ptr1_best
                         then via False (Inr ptr0_best)
                         else via True (Inr ptr1_best)))))))
      | None \<Rightarrow>
          (case p1 of
             Some c1 \<Rightarrow>
               if node_term c1 then Inr \<lparr>best_node = [], depth = my_depth\<rparr> \<comment> \<open>145\<close>
               else via True (best_to_prune c1 (my_depth + 1)) \<comment> \<open>148\<close>
           | None \<Rightarrow> Inl NullDeref \<comment> \<open>150\<close>))"

section \<open>The tree\<close>

text \<open>\<open>class cache_element\<close>: \<open>ptr = None\<close> means the entry is not in use.\<close>

record cache_element =
  addr :: "u8 list"
  ptr :: "nodeptr option"

text \<open>\<open>class iptreet\<close>; \<open>ADDRBYTES\<close> is a parameter of the operations that use it.\<close>

record iptreet =
  root :: node
  nodes :: u64
  maxnodes :: u64
  ctr_added :: u64
  pruned :: u64
  cache :: "cache_element list"
  cachenext :: nat
  cache_hits :: u64
  cache_misses :: u64

definition cache_size :: nat where "cache_size = 4"
definition root_depth :: nat where "root_depth = 0"
definition max_histogram_depth :: nat where "max_histogram_depth = 128"
definition ipv4_bits :: nat where "ipv4_bits = 32"
definition ipv6_bits :: nat where "ipv6_bits = 128"

text \<open>
  \<open>iptreet(int maxnodes0)\<close>: an empty tree; the \<open>int\<close> is converted to \<open>size_t\<close>. Each of
  the four cache slots is \<open>cache_element(0,0,0)\<close>, whose buffer is all zero.
\<close>

definition new_iptreet :: "nat \<Rightarrow> int \<Rightarrow> iptreet" where
  "new_iptreet ADDRBYTES maxnodes0 =
     \<lparr>root = new_node, nodes = 0, maxnodes = of_int maxnodes0, ctr_added = 0, pruned = 0,
      cache = replicate cache_size \<lparr>addr = replicate ADDRBYTES 0, ptr = None\<rparr>,
      cachenext = 0, cache_hits = 0, cache_misses = 0\<rparr>"

text \<open>\<open>iptreet::size\<close> and \<open>iptreet::sum\<close>\<close>

definition tree_size :: "iptreet \<Rightarrow> u64" where
  "tree_size tree = nodes tree"

definition tree_sum :: "iptreet \<Rightarrow> u64" where
  "tree_sum tree = node_sum (root tree)"

subsection \<open>The cache\<close>

text \<open>\<open>iptreet::cache_remove\<close>: clears the first entry that holds the pointer.\<close>

fun cache_remove :: "nodeptr \<Rightarrow> cache_element list \<Rightarrow> cache_element list" where
  "cache_remove p [] = []"
| "cache_remove p (e # es) =
     (if ptr e = Some p then e\<lparr>ptr := None\<rparr> # es else e # cache_remove p es)"

text \<open>\<open>iptreet::cache_search\<close>: the index of the first entry in use whose first
  \<open>addrlen\<close> bytes are those of the key, or \<open>None\<close> for \<open>-1\<close>.\<close>

fun cache_find :: "cache_element list \<Rightarrow> u8 list \<Rightarrow> nat \<Rightarrow> nat \<Rightarrow> error + nat option" where
  "cache_find [] a addrlen i = Inr None"
| "cache_find (e # es) a addrlen i =
     (case ptr e of
        None \<Rightarrow> cache_find es a addrlen (i + 1)
      | Some _ \<Rightarrow>
          (case memcmp_eq (addr e) a addrlen of
             Inl err \<Rightarrow> Inl err
           | Inr eq \<Rightarrow> if eq then Inr (Some i) else cache_find es a addrlen (i + 1)))"

definition cache_search :: "u8 list \<Rightarrow> nat \<Rightarrow> iptreet \<Rightarrow> error + (nat option \<times> iptreet)" where
  "cache_search a addrlen tree =
     (case cache_find (cache tree) a addrlen 0 of
        Inl err \<Rightarrow> Inl err
      | Inr (Some i) \<Rightarrow> Inr (Some i, tree\<lparr>cache_hits := cache_hits tree + 1\<rparr>)
      | Inr None \<Rightarrow> Inr (None, tree\<lparr>cache_misses := cache_misses tree + 1\<rparr>))"

text \<open>\<open>iptreet::cache_replace\<close>\<close>

definition cache_replace :: "u8 list \<Rightarrow> nat \<Rightarrow> nodeptr \<Rightarrow> iptreet \<Rightarrow> error + iptreet" where
  "cache_replace a addrlen p tree =
     (let cn = (if cachenext tree + 1 \<ge> length (cache tree) then 0 else cachenext tree + 1)
      in if cn \<ge> length (cache tree) then Inl OutOfBounds
         else case memcpy (addr (cache tree ! cn)) a addrlen of
                Inl err \<Rightarrow> Inl err
              | Inr buf \<Rightarrow>
                  Inr (tree\<lparr>cachenext := cn,
                            cache := (cache tree)[cn := \<lparr>addr = buf, ptr = Some p\<rparr>]\<rparr>))"

subsection \<open>Pruning\<close>

text \<open>
  \<open>node::prune\<close> on the node at \<open>this\<close>: each child present must be terminal; its tally
  moves into this node, its cache entry is cleared and it is deleted.
\<close>

definition node_prune :: "nodeptr \<Rightarrow> iptreet \<Rightarrow> error + (int \<times> iptreet)" where
  "node_prune this tree =
     (case deref (root tree) this of
        None \<Rightarrow> Inl NullDeref
      | Some n \<Rightarrow>
     (case (case ptr0 n of
              None \<Rightarrow> Inr (n, tree)
            | Some c0 \<Rightarrow>
                if \<not> node_term c0 then Inl AssertFailed
                else Inr (Node None (ptr1 n) (tsum n + tsum c0) (dirty n),
                          tree\<lparr>cache := cache_remove (this @ [False]) (cache tree),
                               pruned := pruned tree + 1,
                               nodes := nodes tree - 1\<rparr>)) of
        Inl e \<Rightarrow> Inl e
      | Inr (n, tree) \<Rightarrow>
     (case (case ptr1 n of
              None \<Rightarrow> Inr (n, tree)
            | Some c1 \<Rightarrow>
                if \<not> node_term c1 then Inl AssertFailed
                else Inr (Node (ptr0 n) None (tsum n + tsum c1) (dirty n),
                          tree\<lparr>cache := cache_remove (this @ [True]) (cache tree),
                               pruned := pruned tree + 1,
                               nodes := nodes tree - 1\<rparr>)) of
        Inl e \<Rightarrow> Inl e
      | Inr (n, tree) \<Rightarrow>
          Inr (1, tree\<lparr>root := modify (\<lambda>_. n) this (root tree)\<rparr>))))"

text \<open>
  \<open>iptreet::prune\<close>. \<open>best_to_prune\<close> returns the \<open>this\<close> of some node, never a null
  \<open>best_node\<close>, so the test \<open>if(tnode)\<close> succeeds.
\<close>

definition prune :: "iptreet \<Rightarrow> error + (int \<times> iptreet)" where
  "prune tree =
     (if node_term (root tree) then Inr (0, tree)
      else case best_to_prune (root tree) root_depth of
             Inl e \<Rightarrow> Inl e
           | Inr b \<Rightarrow> node_prune (best_node b) tree)"

section \<open>Pruning always makes progress\<close>

text \<open>The number of nodes below a node (the node itself is not counted).\<close>

fun node_count :: "node \<Rightarrow> nat" where
  "node_count (Node p0 p1 t dty) =
     (case p0 of None \<Rightarrow> 0 | Some c \<Rightarrow> 1 + node_count c)
       + (case p1 of None \<Rightarrow> 0 | Some c \<Rightarrow> 1 + node_count c)"

text \<open>
  A node that \<open>node::prune\<close> may be called on: it has a child, and every child it has is
  terminal.
\<close>

definition candidate :: "node \<Rightarrow> bool" where
  "candidate n =
     ((ptr0 n \<noteq> None \<or> ptr1 n \<noteq> None)
      \<and> (case ptr0 n of None \<Rightarrow> True | Some c \<Rightarrow> node_term c)
      \<and> (case ptr1 n of None \<Rightarrow> True | Some c \<Rightarrow> node_term c))"

text \<open>
  What the selector promises about the \<open>best\<close> it returns for the node \<open>n\<close> at depth
  \<open>d\<close>: it points to a candidate below \<open>n\<close>, at the recorded depth, whose sum is the least
  among the candidates below \<open>n\<close>, and no candidate with that sum lies deeper.
\<close>

definition selected :: "node \<Rightarrow> nat \<Rightarrow> best \<Rightarrow> bool" where
  "selected n d b =
     (case deref n (best_node b) of
        None \<Rightarrow> False
      | Some c \<Rightarrow>
          candidate c \<and> depth b = d + length (best_node b) \<and>
          (\<forall>p x. deref n p = Some x \<longrightarrow> candidate x \<longrightarrow>
             node_sum c \<le> node_sum x \<and>
             (node_sum x = node_sum c \<longrightarrow> d + length p \<le> depth b)))"

lemma node_children_induct [case_names Node]:
  assumes "\<And>p0 p1 t dty. (\<And>c. p0 = Some c \<Longrightarrow> P c) \<Longrightarrow> (\<And>c. p1 = Some c \<Longrightarrow> P c)
             \<Longrightarrow> P (Node p0 p1 t dty)"
  shows "P n"
  by (induction n) (auto intro: assms)

lemma via_Inr_iff: "via b r = Inr x \<longleftrightarrow> (\<exists>y. r = Inr y \<and> x = y\<lparr>best_node := b # best_node y\<rparr>)"
  by (auto simp: via_def split: sum.splits)

lemma deref_term: "node_term c \<Longrightarrow> deref c p = Some x \<Longrightarrow> p = [] \<and> x = c"
  by (cases p) (auto simp: node_term_def child_def split: if_splits)

lemma term_not_candidate: "node_term c \<Longrightarrow> \<not> candidate c"
  by (auto simp: node_term_def candidate_def split: if_splits)

lemma deref_child_cases:
  assumes "deref n p = Some x"
  obtains "p = []" "x = n"
  | p' c where "p = False # p'" "ptr0 n = Some c" "deref c p' = Some x"
  | p' c where "p = True # p'" "ptr1 n = Some c" "deref c p' = Some x"
proof (cases p)
  case Nil
  with assms that(1) show ?thesis by simp
next
  case (Cons b p')
  with assms that(2,3) show ?thesis
    by (cases b) (auto simp: child_def split: option.splits)
qed

lemma selected_self:
  assumes "candidate n"
  shows "selected n d \<lparr>best_node = [], depth = d\<rparr>"
proof -
  have "p = [] \<and> x = n" if "deref n p = Some x" "candidate x" for p x
    using that(1)
  proof (cases rule: deref_child_cases)
    case 1 then show ?thesis by simp
  next
    case (2 p' c)
    with assms have "node_term c" by (simp add: candidate_def)
    with 2 that(2) show ?thesis by (auto dest: deref_term term_not_candidate)
  next
    case (3 p' c)
    with assms have "node_term c" by (simp add: candidate_def)
    with 3 that(2) show ?thesis by (auto dest: deref_term term_not_candidate)
  qed
  with assms show ?thesis by (auto simp: selected_def)
qed

lemma selected_via:
  assumes sel: "selected c (d + 1) y" and ch: "child n b = Some c" and nt: "\<not> node_term c"
    and other: "case child n (\<not> b) of None \<Rightarrow> True | Some c' \<Rightarrow> node_term c'"
  shows "selected n d (y\<lparr>best_node := b # best_node y\<rparr>)"
proof -
  from sel obtain z where z: "deref c (best_node y) = Some z" "candidate z"
    "depth y = d + 1 + length (best_node y)"
    and least: "\<And>p x. deref c p = Some x \<Longrightarrow> candidate x \<Longrightarrow>
       node_sum z \<le> node_sum x \<and> (node_sum x = node_sum z \<longrightarrow> d + 1 + length p \<le> depth y)"
    by (auto simp: selected_def split: option.splits)
  have nc: "\<not> candidate n"
    using ch nt by (cases b) (auto simp: candidate_def child_def)
  have "node_sum z \<le> node_sum x \<and> (node_sum x = node_sum z \<longrightarrow> d + length p \<le> depth y)"
    if "deref n p = Some x" "candidate x" for p x
    using that(1)
  proof (cases rule: deref_child_cases)
    case 1 with nc that(2) show ?thesis by simp
  next
    case (2 p' c')
    show ?thesis
    proof (cases b)
      case True
      with other 2 have "node_term c'" by (simp add: child_def)
      with 2 that(2) show ?thesis by (auto dest: deref_term term_not_candidate)
    next
      case False
      with ch 2 have "c' = c" by (simp add: child_def)
      with 2 least[of p' x] that(2) show ?thesis by auto
    qed
  next
    case (3 p' c')
    show ?thesis
    proof (cases b)
      case False
      with other 3 have "node_term c'" by (simp add: child_def)
      with 3 that(2) show ?thesis by (auto dest: deref_term term_not_candidate)
    next
      case True
      with ch 3 have "c' = c" by (simp add: child_def)
      with 3 least[of p' x] that(2) show ?thesis by auto
    qed
  qed
  with z ch show ?thesis by (auto simp: selected_def)
qed


lemma selected_both:
  assumes s0: "selected c0 (d + 1) y0" and s1: "selected c1 (d + 1) y1"
    and ch: "ptr0 n = Some c0" "ptr1 n = Some c1"
    and nt: "\<not> node_term c0" "\<not> node_term c1"
    and n0: "deref c0 (best_node y0) = Some n0" and n1: "deref c1 (best_node y1) = Some n1"
  shows "selected n d
           (if node_sum n0 < node_sum n1 then y0\<lparr>best_node := False # best_node y0\<rparr>
            else if node_sum n1 < node_sum n0 then y1\<lparr>best_node := True # best_node y1\<rparr>
            else if depth y0 > depth y1 then y0\<lparr>best_node := False # best_node y0\<rparr>
            else y1\<lparr>best_node := True # best_node y1\<rparr>)"
proof -
  from s0 n0 have z0: "candidate n0" "depth y0 = d + 1 + length (best_node y0)"
    and least0: "\<And>p x. deref c0 p = Some x \<Longrightarrow> candidate x \<Longrightarrow>
       node_sum n0 \<le> node_sum x \<and> (node_sum x = node_sum n0 \<longrightarrow> d + 1 + length p \<le> depth y0)"
    by (auto simp: selected_def)
  from s1 n1 have z1: "candidate n1" "depth y1 = d + 1 + length (best_node y1)"
    and least1: "\<And>p x. deref c1 p = Some x \<Longrightarrow> candidate x \<Longrightarrow>
       node_sum n1 \<le> node_sum x \<and> (node_sum x = node_sum n1 \<longrightarrow> d + 1 + length p \<le> depth y1)"
    by (auto simp: selected_def)
  have nc: "\<not> candidate n"
    using ch nt by (auto simp: candidate_def)
  have split: "(\<exists>p'. p = False # p' \<and> deref c0 p' = Some x) \<or> (\<exists>p'. p = True # p' \<and> deref c1 p' = Some x)"
    if "deref n p = Some x" "candidate x" for p x
    using that(1)
  proof (cases rule: deref_child_cases)
    case 1 with nc that(2) show ?thesis by simp
  next
    case 2 with ch show ?thesis by simp
  next
    case 3 with ch show ?thesis by simp
  qed
  have d0: "deref n (False # best_node y0) = Some n0"
    and d1: "deref n (True # best_node y1) = Some n1"
    using ch n0 n1 by (simp_all add: child_def)
  consider (a) "node_sum n0 < node_sum n1"
    | (b) "\<not> node_sum n0 < node_sum n1" "node_sum n1 < node_sum n0"
    | (c) "node_sum n0 = node_sum n1" "depth y0 > depth y1"
    | (d) "node_sum n0 = node_sum n1" "\<not> depth y0 > depth y1"
    by (metis linorder_neqE)
  then show ?thesis
  proof cases
    case a
    have "node_sum n0 \<le> node_sum x \<and> (node_sum x = node_sum n0 \<longrightarrow> d + length p \<le> depth y0)"
      if "deref n p = Some x" "candidate x" for p x
      using split[OF that] least0[of _ x] least1[of _ x] that(2) a by fastforce
    with a d0 z0 show ?thesis by (simp add: selected_def)
  next
    case b
    have "node_sum n1 \<le> node_sum x \<and> (node_sum x = node_sum n1 \<longrightarrow> d + length p \<le> depth y1)"
      if "deref n p = Some x" "candidate x" for p x
      using split[OF that] least0[of _ x] least1[of _ x] that(2) b by fastforce
    with b d1 z1 show ?thesis by (simp add: selected_def)
  next
    case c
    have "node_sum n0 \<le> node_sum x \<and> (node_sum x = node_sum n0 \<longrightarrow> d + length p \<le> depth y0)"
      if "deref n p = Some x" "candidate x" for p x
      using split[OF that] least0[of _ x] least1[of _ x] that(2) c by fastforce
    with c d0 z0 show ?thesis by (simp add: selected_def)
  next
    case d
    have "node_sum n1 \<le> node_sum x \<and> (node_sum x = node_sum n1 \<longrightarrow> d + length p \<le> depth y1)"
      if "deref n p = Some x" "candidate x" for p x
      using split[OF that] least0[of _ x] least1[of _ x] that(2) d by fastforce
    with d d1 z1 show ?thesis by (simp add: selected_def)
  qed
qed

lemma best_to_prune_selected:
  "best_to_prune n d = Inr b \<Longrightarrow> selected n d b"
proof (induction n arbitrary: d b rule: node_children_induct)
  case (Node p0 p1 t dty)
  let ?n = "Node p0 p1 t dty"
  from Node.prems have nterm: "\<not> node_term ?n" by (simp split: if_splits)
  show ?case
  proof (cases p0)
    case None
    note p0 = this
    show ?thesis
    proof (cases p1)
      case None
      with p0 Node.prems show ?thesis by (simp split: if_splits)
    next
      case (Some c1)
      show ?thesis
      proof (cases "node_term c1")
        case True
        with p0 Some have "candidate ?n" by (simp add: candidate_def)
        moreover from True p0 Some Node.prems nterm have "b = \<lparr>best_node = [], depth = d\<rparr>" by simp
        ultimately show ?thesis by (simp add: selected_self)
      next
        case False
        with p0 Some Node.prems nterm obtain y where
          y: "best_to_prune c1 (d + 1) = Inr y" "b = y\<lparr>best_node := True # best_node y\<rparr>"
          by (auto simp: via_Inr_iff)
        from Node.IH(2)[OF Some y(1)] have "selected c1 (d + 1) y" .
        from selected_via[OF this, of ?n True] False p0 Some y(2) show ?thesis
          by (simp add: child_def)
      qed
    qed
  next
    case (Some c0)
    note p0 = this
    show ?thesis
    proof (cases p1)
      case None
      show ?thesis
      proof (cases "node_term c0")
        case True
        with p0 None have "candidate ?n" by (simp add: candidate_def)
        moreover from True p0 None Node.prems nterm have "b = \<lparr>best_node = [], depth = d\<rparr>" by simp
        ultimately show ?thesis by (simp add: selected_self)
      next
        case False
        with p0 None Node.prems nterm obtain y where
          y: "best_to_prune c0 (d + 1) = Inr y" "b = y\<lparr>best_node := False # best_node y\<rparr>"
          by (auto simp: via_Inr_iff)
        from Node.IH(1)[OF p0 y(1)] have "selected c0 (d + 1) y" .
        from selected_via[OF this, of ?n False] False p0 None y(2) show ?thesis
          by (simp add: child_def)
      qed
    next
      case (Some c1)
      note p1 = this
      consider (tt) "node_term c0" "node_term c1" | (tn) "node_term c0" "\<not> node_term c1"
        | (nt) "\<not> node_term c0" "node_term c1" | (nn) "\<not> node_term c0" "\<not> node_term c1"
        by blast
      then show ?thesis
      proof cases
        case tt
        with p0 p1 have "candidate ?n" by (simp add: candidate_def)
        moreover from tt p0 p1 Node.prems nterm have "b = \<lparr>best_node = [], depth = d\<rparr>" by simp
        ultimately show ?thesis by (simp add: selected_self)
      next
        case tn
        with p0 p1 Node.prems nterm obtain y where
          y: "best_to_prune c1 (d + 1) = Inr y" "b = y\<lparr>best_node := True # best_node y\<rparr>"
          by (auto simp: via_Inr_iff)
        from Node.IH(2)[OF p1 y(1)] have "selected c1 (d + 1) y" .
        from selected_via[OF this, of ?n True] tn p0 p1 y(2) show ?thesis
          by (simp add: child_def)
      next
        case nt
        with p0 p1 Node.prems nterm obtain y where
          y: "best_to_prune c0 (d + 1) = Inr y" "b = y\<lparr>best_node := False # best_node y\<rparr>"
          by (auto simp: via_Inr_iff)
        from Node.IH(1)[OF p0 y(1)] have "selected c0 (d + 1) y" .
        from selected_via[OF this, of ?n False] nt p0 p1 y(2) show ?thesis
          by (simp add: child_def)
      next
        case nn
        with p0 p1 Node.prems nterm obtain y0 y1 n0 n1 where
          y: "best_to_prune c0 (d + 1) = Inr y0" "best_to_prune c1 (d + 1) = Inr y1"
             "deref c0 (best_node y0) = Some n0" "deref c1 (best_node y1) = Some n1"
          and b: "b = (if node_sum n0 < node_sum n1 then y0\<lparr>best_node := False # best_node y0\<rparr>
            else if node_sum n1 < node_sum n0 then y1\<lparr>best_node := True # best_node y1\<rparr>
            else if depth y0 > depth y1 then y0\<lparr>best_node := False # best_node y0\<rparr>
            else y1\<lparr>best_node := True # best_node y1\<rparr>)"
          by (auto simp: via_def Let_def split: sum.splits option.splits if_splits)
        from Node.IH(1)[OF p0 y(1)] have s0: "selected c0 (d + 1) y0" .
        from Node.IH(2)[OF p1 y(2)] have s1: "selected c1 (d + 1) y1" .
        from selected_both[OF s0 s1 _ _ nn y(3,4), of ?n] b show ?thesis
          by (simp add: p0 p1)
      qed
    qed
  qed
qed

lemma node_count_set_child:
  "node_count (set_child b (Some c') n) + (case child n b of None \<Rightarrow> 0 | Some c \<Rightarrow> 1 + node_count c)
     = node_count n + 1 + node_count c'"
  by (cases n; cases b) (auto simp: set_child_def child_def split: option.splits)

lemma node_count_modify:
  "deref r p = Some n \<Longrightarrow>
     node_count (modify f p r) + node_count n = node_count r + node_count (f n)"
proof (induction p arbitrary: r)
  case Nil
  then show ?case by simp
next
  case (Cons b p)
  then obtain c where c: "child r b = Some c" "deref c p = Some n"
    by (auto split: option.splits)
  from Cons.IH[OF c(2)] node_count_set_child[of b "modify f p c" r] c(1)
  show ?case by simp
qed

lemma candidate_count: "candidate n \<Longrightarrow> 0 < node_count n"
  by (cases n) (auto simp: candidate_def)

lemma node_prune_root:
  assumes "node_prune p tree = Inr (r, tree')"
  shows "\<exists>n. deref (root tree) p = Some n \<and>
           root tree' = modify (\<lambda>_. Node None None
               (tsum n + (case ptr0 n of None \<Rightarrow> 0 | Some c \<Rightarrow> tsum c)
                       + (case ptr1 n of None \<Rightarrow> 0 | Some c \<Rightarrow> tsum c)) (dirty n)) p (root tree) \<and>
           (case ptr0 n of None \<Rightarrow> True | Some c \<Rightarrow> node_term c) \<and>
           (case ptr1 n of None \<Rightarrow> True | Some c \<Rightarrow> node_term c)"
proof -
  from assms obtain n where n: "deref (root tree) p = Some n"
    by (auto simp: node_prune_def split: option.splits)
  obtain p0 p1 t dty where [simp]: "n = Node p0 p1 t dty" by (cases n)
  show ?thesis
  proof (cases p0)
    case None
    note p0 = this
    show ?thesis
    proof (cases p1)
      case None
      with p0 n assms show ?thesis by (auto simp: node_prune_def)
    next
      case (Some c1)
      with p0 n assms show ?thesis by (auto simp: node_prune_def split: if_splits)
    qed
  next
    case (Some c0)
    note p0 = this
    show ?thesis
    proof (cases p1)
      case None
      with p0 n assms show ?thesis by (auto simp: node_prune_def split: if_splits)
    next
      case (Some c1)
      with p0 n assms show ?thesis by (auto simp: node_prune_def split: if_splits)
    qed
  qed
qed

lemma prune_progress:
  assumes "prune tree = Inr (r, tree')" "r \<noteq> 0"
  shows "node_count (root tree') < node_count (root tree)"
proof -
  from assms obtain b where b: "best_to_prune (root tree) root_depth = Inr b"
    "node_prune (best_node b) tree = Inr (r, tree')"
    by (auto simp: prune_def split: if_splits sum.splits)
  from best_to_prune_selected[OF b(1)] obtain c where
    c: "deref (root tree) (best_node b) = Some c" "candidate c"
    by (auto simp: selected_def split: option.splits)
  from node_prune_root[OF b(2)] c(1) obtain s where
    "root tree' = modify (\<lambda>_. Node None None s (dirty c)) (best_node b) (root tree)"
    by auto
  with node_count_modify[OF c(1), of "\<lambda>_. Node None None s (dirty c)"] candidate_count[OF c(2)]
  show ?thesis by simp
qed

section \<open>Pruning to the limit, and adding\<close>

text \<open>
  The loop of \<open>iptreet::prune_if_greater\<close>: \<open>while(nodes > maxnodes * 9 / 10)\<close>, left
  when \<open>prune()\<close> returns 0. Every call of \<open>prune\<close> that returns 1 removes a node, so the
  loop ends.
\<close>

function prune_loop :: "iptreet \<Rightarrow> error + iptreet" where
  "prune_loop tree =
     (if nodes tree > maxnodes tree * 9 div 10 then
        (case prune tree of
           Inl e \<Rightarrow> Inl e
         | Inr (r, tree') \<Rightarrow> if r = 0 then Inr tree' else prune_loop tree')
      else Inr tree)"
  by pat_completeness auto
termination
  by (relation "measure (\<lambda>tree. node_count (root tree))") (auto simp: prune_progress)

declare prune_loop.simps [simp del]

text \<open>\<open>iptreet::prune_if_greater\<close>; the source does not use its parameter.\<close>

definition prune_if_greater :: "u64 \<Rightarrow> iptreet \<Rightarrow> error + iptreet" where
  "prune_if_greater limit tree =
     (if nodes tree \<ge> maxnodes tree then prune_loop tree else Inr tree)"

text \<open>
  The loop of \<open>iptreet::add\<close>, \<open>for(u_int depth=0;depth<=addr_bits;depth++)\<close>, with
  \<open>ptr\<close> the pointer \<open>p\<close>; the \<open>assert(0)\<close> behind the loop is its first branch.
\<close>

function add_walk ::
  "u8 list \<Rightarrow> nat \<Rightarrow> u64 \<Rightarrow> nat \<Rightarrow> nat \<Rightarrow> nodeptr \<Rightarrow> iptreet \<Rightarrow> error + iptreet" where
  "add_walk a addrlen val addr_bits d p tree =
     (if d > addr_bits then Inl AssertFailed
      else if d = addr_bits then
        (case node_add p val (root tree) of
           Inl e \<Rightarrow> Inl e
         | Inr r \<Rightarrow> cache_replace a addrlen p (tree\<lparr>root := r\<rparr>))
      else
        (case bit_addr a d of
           Inl e \<Rightarrow> Inl e
         | Inr b \<Rightarrow>
        (case deref (root tree) p of
           None \<Rightarrow> Inl NullDeref
         | Some n \<Rightarrow>
             if b = False then
               (let tree' =
                  (if ptr0 n = None
                   then tree\<lparr>root := modify (set_child False (Some new_node)) p (root tree),
                             nodes := nodes tree + 1,
                             ctr_added := ctr_added tree + 1\<rparr>
                   else tree)
                in add_walk a addrlen val addr_bits (d + 1) (p @ [False]) tree')
             else
               (let tree' =
                  (if ptr1 n = None
                   then tree\<lparr>root := modify (set_child True (Some new_node)) p (root tree),
                             nodes := nodes tree + 1,
                             ctr_added := ctr_added tree + 1\<rparr>
                   else tree)
                in add_walk a addrlen val addr_bits (d + 1) (p @ [True]) tree'))))"
  by pat_completeness auto
termination
  by (relation "measure (\<lambda>(a, addrlen, val, addr_bits, d, p, tree). addr_bits - d)") auto

declare add_walk.simps [simp del]

text \<open>\<open>iptreet::add\<close>\<close>

definition add :: "nat \<Rightarrow> u8 list \<Rightarrow> nat \<Rightarrow> u64 \<Rightarrow> iptreet \<Rightarrow> error + iptreet" where
  "add ADDRBYTES a addrlen val tree =
     (case prune_if_greater (maxnodes tree) tree of
        Inl e \<Rightarrow> Inl e
      | Inr tree \<Rightarrow>
          (let addrlen = (if addrlen > ADDRBYTES then ADDRBYTES else addrlen);
               addr_bits = addrlen * 8
           in case cache_search a addrlen tree of
                Inl e \<Rightarrow> Inl e
              | Inr (Some i, tree) \<Rightarrow>
                  (case ptr (cache tree ! i) of
                     None \<Rightarrow> Inl NullDeref
                   | Some p \<Rightarrow>
                       (case node_add p val (root tree) of
                          Inl e \<Rightarrow> Inl e
                        | Inr r \<Rightarrow> Inr (tree\<lparr>root := r\<rparr>)))
              | Inr (None, tree) \<Rightarrow> add_walk a addrlen val addr_bits 0 [] tree))"

section \<open>The histogram\<close>

text \<open>
  \<open>class addr_elem\<close>: the constructor copies \<open>ADDRBYTES\<close> bytes of the address and
  stores the \<open>int\<close> depth in a \<open>uint8_t\<close>.
\<close>

record addr_elem =
  elem_addr :: "u8 list"
  elem_depth :: u8
  count :: u64

text \<open>
  \<open>iptreet::get_histogram\<close> (the recursive one), in its three parts: the entry of this
  node, pushed if its tally is not zero; the addresses \<open>addr0\<close> and \<open>addr1\<close> of the two
  children (\<open>setbit(addr1,depth)\<close> is executed whether or not there is a \<open>ptr1\<close>); and
  the children, unless \<open>depth>max_histogram_depth\<close>.
\<close>

definition push_elem ::
  "nat \<Rightarrow> nat \<Rightarrow> u8 list \<Rightarrow> node \<Rightarrow> addr_elem list \<Rightarrow> error + addr_elem list" where
  "push_elem ADDRBYTES d a n histogram =
     (if nodesum n \<noteq> 0 then
        (case memcpy (replicate ADDRBYTES 0) a ADDRBYTES of
           Inl e \<Rightarrow> Inl e
         | Inr buf \<Rightarrow>
             Inr (histogram @
                  [\<lparr>elem_addr = buf, elem_depth = of_nat d, count = nodesum n\<rparr>]))
      else Inr histogram)"

definition child_addrs :: "nat \<Rightarrow> nat \<Rightarrow> u8 list \<Rightarrow> error + (u8 list \<times> u8 list)" where
  "child_addrs ADDRBYTES d a =
     (case memcpy (replicate ADDRBYTES 0) a ((d + 7) div 8) of
        Inl e \<Rightarrow> Inl e
      | Inr addr0 \<Rightarrow>
     (case memcpy (replicate ADDRBYTES 0) a ((d + 7) div 8) of
        Inl e \<Rightarrow> Inl e
      | Inr addr1 \<Rightarrow>
     (case setbit addr1 d of
        Inl e \<Rightarrow> Inl e
      | Inr addr1 \<Rightarrow> Inr (addr0, addr1))))"

fun get_histogram ::
  "nat \<Rightarrow> nat \<Rightarrow> u8 list \<Rightarrow> node \<Rightarrow> addr_elem list \<Rightarrow> error + addr_elem list" where
  "get_histogram ADDRBYTES d a (Node p0 p1 t dty) histogram =
     (case push_elem ADDRBYTES d a (Node p0 p1 t dty) histogram of
        Inl e \<Rightarrow> Inl e
      | Inr histogram \<Rightarrow>
          if d > max_histogram_depth then Inr histogram
          else
     (case child_addrs ADDRBYTES d a of
        Inl e \<Rightarrow> Inl e
      | Inr (addr0, addr1) \<Rightarrow>
     (case (case p0 of
              None \<Rightarrow> Inr histogram
            | Some c0 \<Rightarrow> get_histogram ADDRBYTES (d + 1) addr0 c0 histogram) of
        Inl e \<Rightarrow> Inl e
      | Inr histogram \<Rightarrow>
          (case p1 of
             None \<Rightarrow> Inr histogram
           | Some c1 \<Rightarrow> get_histogram ADDRBYTES (d + 1) addr1 c1 histogram))))"

text \<open>\<open>iptreet::get_histogram(histogram_t &)\<close>, called with an empty vector.\<close>

definition tree_histogram :: "nat \<Rightarrow> iptreet \<Rightarrow> error + addr_elem list" where
  "tree_histogram ADDRBYTES tree =
     get_histogram ADDRBYTES 0 (replicate ADDRBYTES 0) (root tree) []"

section \<open>Sequences of calls\<close>

text \<open>
  The calls a user of the class can make on a tree, and running a sequence of them from a
  given tree; the first failure ends the run.
\<close>

datatype op = Add "u8 list" nat u64 | Prune | PruneIfGreater u64

fun step :: "nat \<Rightarrow> op \<Rightarrow> iptreet \<Rightarrow> error + iptreet" where
  "step ADDRBYTES (Add a addrlen val) tree = add ADDRBYTES a addrlen val tree"
| "step ADDRBYTES Prune tree = (case prune tree of Inl e \<Rightarrow> Inl e | Inr (r, tree') \<Rightarrow> Inr tree')"
| "step ADDRBYTES (PruneIfGreater limit) tree = prune_if_greater limit tree"

fun run :: "nat \<Rightarrow> op list \<Rightarrow> iptreet \<Rightarrow> error + iptreet" where
  "run ADDRBYTES [] tree = Inr tree"
| "run ADDRBYTES (x # xs) tree =
     (case step ADDRBYTES x tree of Inl e \<Rightarrow> Inl e | Inr tree' \<Rightarrow> run ADDRBYTES xs tree')"

fun weight :: "op \<Rightarrow> u64" where
  "weight (Add a addrlen val) = val"
| "weight Prune = 0"
| "weight (PruneIfGreater limit) = 0"


section \<open>The total is conserved\<close>

lemma node_sum_set_child:
  "node_sum (set_child b (Some c') n)
     = node_sum n - (case child n b of None \<Rightarrow> 0 | Some c \<Rightarrow> node_sum c) + node_sum c'"
  by (cases n; cases b) (auto simp: set_child_def child_def split: option.splits)

lemma node_sum_modify:
  "deref r p = Some n \<Longrightarrow> node_sum (modify f p r) = node_sum r - node_sum n + node_sum (f n)"
proof (induction p arbitrary: r)
  case Nil
  then show ?case by simp
next
  case (Cons b p)
  then obtain c where c: "child r b = Some c" "deref c p = Some n"
    by (auto split: option.splits)
  from Cons.IH[OF c(2)] c(1) show ?case
    by (simp add: node_sum_set_child)
qed

lemma set_child_same: "child r b = Some c \<Longrightarrow> set_child b (Some c) r = r"
  by (cases r; cases b) (auto simp: set_child_def child_def)

lemma modify_dangling: "deref r p = None \<Longrightarrow> modify f p r = r"
  by (induction p arbitrary: r) (auto simp: set_child_same split: option.splits)

lemma node_sum_modify_same:
  assumes "\<And>n. node_sum (f n) = node_sum n"
  shows "node_sum (modify f p r) = node_sum r"
proof (cases "deref r p")
  case None
  then show ?thesis by (simp add: modify_dangling)
next
  case (Some n)
  from node_sum_modify[OF this, of f] assms show ?thesis by simp
qed

lemma node_sum_mark_dirty: "node_sum (mark_dirty n) = node_sum n"
  by (cases n) (simp add: mark_dirty_def)

lemma node_sum_set_dirty: "node_sum (set_dirty p r) = node_sum r"
proof (induction p r rule: set_dirty.induct)
  case (1 this r)
  show ?case
    apply (subst set_dirty.simps)
    using 1 by (auto simp: Let_def node_sum_modify_same node_sum_mark_dirty split: option.splits)
qed

lemma node_add_sum:
  assumes "node_add p val r = Inr r'"
  shows "node_sum r' = node_sum r + val"
proof -
  from assms obtain n where n: "deref r p = Some n"
    by (auto simp: node_add_def split: option.splits)
  let ?f = "\<lambda>n. Node (ptr0 n) (ptr1 n) (tsum n + val) (dirty n)"
  have "node_sum (?f n) = node_sum n + val" by (cases n) simp
  with node_sum_modify[OF n, of ?f] have "node_sum (modify ?f p r) = node_sum r + val"
    by (simp del: node_sum.simps)
  with assms n show ?thesis by (auto simp: node_add_def node_sum_set_dirty)
qed


lemma cache_replace_root: "cache_replace a addrlen p tree = Inr tree' \<Longrightarrow> root tree' = root tree"
  by (auto simp: cache_replace_def Let_def split: if_splits sum.splits)

lemma cache_search_root: "cache_search a addrlen tree = Inr (r, tree') \<Longrightarrow> root tree' = root tree"
  by (auto simp: cache_search_def split: sum.splits option.splits)

lemma node_sum_new_child:
  "child n b = None \<Longrightarrow> node_sum (set_child b (Some new_node) n) = node_sum n"
  by (simp add: node_sum_set_child new_node_def)


lemma add_walk_sum:
  "add_walk a addrlen val addr_bits d p tree = Inr tree' \<Longrightarrow>
     tree_sum tree' = tree_sum tree + val"
proof (induction a addrlen val addr_bits d p tree rule: add_walk.induct)
  case (1 a addrlen val addr_bits d p tree)
  from "1.prems" have le: "\<not> d > addr_bits"
    by (subst (asm) add_walk.simps) (simp split: if_splits)
  show ?case
  proof (cases "d = addr_bits")
    case True
    with "1.prems" obtain r where r: "node_add p val (root tree) = Inr r"
      "cache_replace a addrlen p (tree\<lparr>root := r\<rparr>) = Inr tree'"
      by (subst (asm) add_walk.simps) (auto split: sum.splits)
    from cache_replace_root[OF r(2)] node_add_sum[OF r(1)] show ?thesis
      by (simp add: tree_sum_def)
  next
    case False
    with le "1.prems" obtain b n where bn: "bit_addr a d = Inr b" "deref (root tree) p = Some n"
      by (subst (asm) add_walk.simps) (auto split: sum.splits option.splits)
    let ?grow = "\<lambda>b. tree\<lparr>root := modify (set_child b (Some new_node)) p (root tree),
                             nodes := nodes tree + 1,
                             ctr_added := ctr_added tree + 1\<rparr>"
    have grow: "tree_sum (?grow b) = tree_sum tree" if "child n b = None" for b
      using node_sum_modify[OF bn(2), of "set_child b (Some new_node)"] node_sum_new_child[OF that]
      by (simp add: tree_sum_def)
    show ?thesis
    proof (cases b)
      case True
      define tree1 where "tree1 = (if ptr1 n = None then ?grow True else tree)"
      from "1.prems" le False bn True
      have "add_walk a addrlen val addr_bits (d + 1) (p @ [True]) tree1 = Inr tree'"
        by (subst (asm) add_walk.simps) (simp add: tree1_def)
      from "1.IH"(2)[OF le False bn(1) bn(2) _ tree1_def this] True
      have "tree_sum tree' = tree_sum tree1 + val" by simp
      moreover have "tree_sum tree1 = tree_sum tree"
        using grow[of True] by (simp add: tree1_def child_def)
      ultimately show ?thesis by simp
    next
      case False
      note bF = this
      define tree1 where "tree1 = (if ptr0 n = None then ?grow False else tree)"
      from "1.prems" le \<open>d \<noteq> addr_bits\<close> bn bF
      have "add_walk a addrlen val addr_bits (d + 1) (p @ [False]) tree1 = Inr tree'"
        by (subst (asm) add_walk.simps) (simp add: tree1_def)
      from "1.IH"(1)[OF le \<open>d \<noteq> addr_bits\<close> bn(1) bn(2) _ tree1_def this] bF
      have "tree_sum tree' = tree_sum tree1 + val" by simp
      moreover have "tree_sum tree1 = tree_sum tree"
        using grow[of False] by (simp add: tree1_def child_def)
      ultimately show ?thesis by simp
    qed
  qed
qed


lemma node_prune_sum:
  assumes "node_prune p tree = Inr (r, tree')"
  shows "tree_sum tree' = tree_sum tree"
proof -
  from node_prune_root[OF assms] obtain n where n: "deref (root tree) p = Some n"
    and r: "root tree' = modify (\<lambda>_. Node None None
               (tsum n + (case ptr0 n of None \<Rightarrow> 0 | Some c \<Rightarrow> tsum c)
                       + (case ptr1 n of None \<Rightarrow> 0 | Some c \<Rightarrow> tsum c)) (dirty n)) p (root tree)"
    and t: "case ptr0 n of None \<Rightarrow> True | Some c \<Rightarrow> node_term c"
           "case ptr1 n of None \<Rightarrow> True | Some c \<Rightarrow> node_term c"
    by auto
  have term_sum: "node_sum c = tsum c" if "node_term c" for c
    using that by (cases c) (auto simp: node_term_def split: if_splits)
  have "node_sum (Node None None
               (tsum n + (case ptr0 n of None \<Rightarrow> 0 | Some c \<Rightarrow> tsum c)
                       + (case ptr1 n of None \<Rightarrow> 0 | Some c \<Rightarrow> tsum c)) (dirty n)) = node_sum n"
    using t by (cases n) (auto simp: term_sum split: option.splits)
  with node_sum_modify[OF n] r show ?thesis
    by (simp add: tree_sum_def del: node_sum.simps)
qed

lemma prune_sum: "prune tree = Inr (r, tree') \<Longrightarrow> tree_sum tree' = tree_sum tree"
  by (auto simp: prune_def node_prune_sum split: if_splits sum.splits)

lemma prune_loop_sum: "prune_loop tree = Inr tree' \<Longrightarrow> tree_sum tree' = tree_sum tree"
proof (induction tree rule: prune_loop.induct)
  case (1 tree)
  show ?case
  proof (cases "nodes tree > maxnodes tree * 9 div 10")
    case False
    with "1.prems" show ?thesis by (subst (asm) prune_loop.simps) simp
  next
    case True
    with "1.prems" obtain r tree1 where p: "prune tree = Inr (r, tree1)"
      and rest: "if r = 0 then tree' = tree1 else prune_loop tree1 = Inr tree'"
      by (subst (asm) prune_loop.simps) (auto split: sum.splits if_splits)
    show ?thesis
    proof (cases "r = 0")
      case True
      with rest prune_sum[OF p] show ?thesis by simp
    next
      case False
      with rest have "prune_loop tree1 = Inr tree'" by simp
      from "1.IH"[OF True p refl False this] prune_sum[OF p] show ?thesis by simp
    qed
  qed
qed

lemma prune_if_greater_sum:
  "prune_if_greater limit tree = Inr tree' \<Longrightarrow> tree_sum tree' = tree_sum tree"
  by (auto simp: prune_if_greater_def prune_loop_sum split: if_splits)

lemma add_sum:
  assumes "add ADDRBYTES a addrlen val tree = Inr tree'"
  shows "tree_sum tree' = tree_sum tree + val"
proof -
  define alen where "alen = (if addrlen > ADDRBYTES then ADDRBYTES else addrlen)"
  from assms obtain tree1 where t1: "prune_if_greater (maxnodes tree) tree = Inr tree1"
    by (auto simp: add_def split: sum.splits)
  with assms obtain hit tree2 where t2: "cache_search a alen tree1 = Inr (hit, tree2)"
    by (auto simp: add_def Let_def alen_def split: sum.splits)
  have s2: "tree_sum tree2 = tree_sum tree"
    using prune_if_greater_sum[OF t1] cache_search_root[OF t2] by (simp add: tree_sum_def)
  show ?thesis
  proof (cases hit)
    case None
    with assms t1 t2 have "add_walk a alen val (alen * 8) 0 [] tree2 = Inr tree'"
      by (simp add: add_def Let_def alen_def)
    from add_walk_sum[OF this] s2 show ?thesis by simp
  next
    case (Some i)
    with assms t1 t2 obtain p r where "node_add p val (root tree2) = Inr r" "tree' = tree2\<lparr>root := r\<rparr>"
      by (auto simp: add_def Let_def alen_def split: option.splits sum.splits)
    with node_add_sum[of p val "root tree2" r] s2 show ?thesis by (simp add: tree_sum_def)
  qed
qed

lemma step_sum: "step ADDRBYTES x tree = Inr tree' \<Longrightarrow> tree_sum tree' = tree_sum tree + weight x"
  by (cases x) (auto simp: add_sum prune_sum prune_if_greater_sum split: sum.splits)

lemma run_sum:
  "run ADDRBYTES ops tree = Inr tree' \<Longrightarrow> tree_sum tree' = tree_sum tree + sum_list (map weight ops)"
proof (induction ops arbitrary: tree)
  case Nil
  then show ?case by simp
next
  case (Cons x xs)
  then obtain tree1 where t1: "step ADDRBYTES x tree = Inr tree1" "run ADDRBYTES xs tree1 = Inr tree'"
    by (auto split: sum.splits)
  from Cons.IH[OF t1(2)] step_sum[OF t1(1)] show ?case by (simp add: algebra_simps)
qed

lemma tree_sum_new: "tree_sum (new_iptreet ADDRBYTES m) = 0"
  by (simp add: tree_sum_def new_iptreet_def new_node_def)

section \<open>A tree without a cache\<close>

text \<open>
  The same calls on a tree without a cache (a cache of capacity zero: every lookup
  misses and nothing is stored).
\<close>

function walk_uncached ::
  "u8 list \<Rightarrow> u64 \<Rightarrow> nat \<Rightarrow> nat \<Rightarrow> nodeptr \<Rightarrow> iptreet \<Rightarrow> error + iptreet" where
  "walk_uncached a val addr_bits d p tree =
     (if d > addr_bits then Inl AssertFailed
      else if d = addr_bits then
        (case node_add p val (root tree) of
           Inl e \<Rightarrow> Inl e
         | Inr r \<Rightarrow> Inr (tree\<lparr>root := r\<rparr>))
      else
        (case bit_addr a d of
           Inl e \<Rightarrow> Inl e
         | Inr b \<Rightarrow>
        (case deref (root tree) p of
           None \<Rightarrow> Inl NullDeref
         | Some n \<Rightarrow>
             (let tree' =
                (if child n b = None
                 then tree\<lparr>root := modify (set_child b (Some new_node)) p (root tree),
                           nodes := nodes tree + 1,
                           ctr_added := ctr_added tree + 1\<rparr>
                 else tree)
              in walk_uncached a val addr_bits (d + 1) (p @ [b]) tree'))))"
  by pat_completeness auto
termination
  by (relation "measure (\<lambda>(a, val, addr_bits, d, p, tree). addr_bits - d)") auto

declare walk_uncached.simps [simp del]

definition add_uncached :: "nat \<Rightarrow> u8 list \<Rightarrow> nat \<Rightarrow> u64 \<Rightarrow> iptreet \<Rightarrow> error + iptreet" where
  "add_uncached ADDRBYTES a addrlen val tree =
     (case prune_if_greater (maxnodes tree) tree of
        Inl e \<Rightarrow> Inl e
      | Inr tree \<Rightarrow>
          (let addrlen = (if addrlen > ADDRBYTES then ADDRBYTES else addrlen)
           in walk_uncached a val (addrlen * 8) 0 [] tree))"

fun run_uncached :: "nat \<Rightarrow> op list \<Rightarrow> iptreet \<Rightarrow> error + iptreet" where
  "run_uncached ADDRBYTES [] tree = Inr tree"
| "run_uncached ADDRBYTES (x # xs) tree =
     (case (case x of
              Add a addrlen val \<Rightarrow> add_uncached ADDRBYTES a addrlen val tree
            | _ \<Rightarrow> step ADDRBYTES x tree) of
        Inl e \<Rightarrow> Inl e
      | Inr tree' \<Rightarrow> run_uncached ADDRBYTES xs tree')"

section \<open>Reading a tree\<close>

text \<open>The tally of the node reached from the root by the first \<open>n\<close> bits of an address.\<close>

fun walk_bits :: "u8 list \<Rightarrow> nat \<Rightarrow> nat \<Rightarrow> node \<Rightarrow> node option" where
  "walk_bits a i 0 n = Some n"
| "walk_bits a i (Suc k) n =
     (case bit_addr a i of
        Inl e \<Rightarrow> None
      | Inr b \<Rightarrow> (case child n b of None \<Rightarrow> None | Some c \<Rightarrow> walk_bits a (i + 1) k c))"

definition tally_at :: "u8 list \<Rightarrow> nat \<Rightarrow> error + iptreet \<Rightarrow> u64 option" where
  "tally_at a n r =
     (case r of Inl e \<Rightarrow> None | Inr tree \<Rightarrow> map_option tsum (walk_bits a 0 n (root tree)))"

text \<open>The histogram of the tree a run ends with, as (address, depth, count) triples.\<close>

definition histogram_of :: "nat \<Rightarrow> error + iptreet \<Rightarrow> error + (u8 list \<times> nat \<times> nat) list" where
  "histogram_of ADDRBYTES r =
     (case r of
        Inl e \<Rightarrow> Inl e
      | Inr tree \<Rightarrow>
          (case tree_histogram ADDRBYTES tree of
             Inl e \<Rightarrow> Inl e
           | Inr h \<Rightarrow> Inr (map (\<lambda>e. (elem_addr e, unat (elem_depth e), unat (count e))) h)))"

text \<open>The pointer that the first \<open>k\<close> bits of an address, from bit \<open>i\<close> on, lead to.\<close>

fun prefix_bits :: "u8 list \<Rightarrow> nat \<Rightarrow> nat \<Rightarrow> nodeptr" where
  "prefix_bits a i 0 = []"
| "prefix_bits a i (Suc k) =
     (case bit_addr a i of Inl e \<Rightarrow> [] | Inr b \<Rightarrow> b # prefix_bits a (i + 1) k)"

section \<open>Scenarios\<close>

text \<open>Scenario 4 of the specification: 10.0.0.1 with weight 100 and 10.0.0.2 with weight 1.\<close>

definition two_hosts :: "op list" where
  "two_hosts = [Add [10,0,0,1] 4 100, Add [10,0,0,2] 4 1]"

definition two_hosts_tree :: iptreet where
  "two_hosts_tree = projr (run 16 two_hosts (new_iptreet 16 1000))"

lemma two_hosts_run: "run 16 two_hosts (new_iptreet 16 1000) = Inr two_hosts_tree"
proof -
  have "\<not> isl (run 16 two_hosts (new_iptreet 16 1000))" by code_simp
  then show ?thesis by (simp add: two_hosts_tree_def)
qed

section \<open>The node counter\<close>

text \<open>
  \<open>nodes\<close> is the number of nodes below the root (invariant 2 of the specification). It
  holds in a new tree and every call keeps it, as long as the number of nodes fits
  \<open>size_t\<close>.
\<close>

definition counted :: "iptreet \<Rightarrow> bool" where
  "counted tree = (unat (nodes tree) = node_count (root tree))"

lemma term_count: "node_term c \<Longrightarrow> node_count c = 0"
  by (cases c) (auto simp: node_term_def split: if_splits)

lemma unat_dec: "0 < unat (x :: u64) \<Longrightarrow> unat (x - 1) = unat x - 1"
  by (metis unat_minus_one unat_0 less_numeral_extra(3))

lemma unat_dec2: "2 \<le> unat (x :: u64) \<Longrightarrow> unat (x - 2) = unat x - 2"
  by (simp add: unat_sub word_le_nat_alt)

lemma node_prune_counted:
  assumes np: "node_prune p tree = Inr (r, tree')" and c: "counted tree"
  shows "counted tree' \<and> maxnodes tree' = maxnodes tree"
proof -
  from node_prune_root[OF np] obtain n where n: "deref (root tree) p = Some n"
    and r: "root tree' = modify (\<lambda>_. Node None None
               (tsum n + (case ptr0 n of None \<Rightarrow> 0 | Some c \<Rightarrow> tsum c)
                       + (case ptr1 n of None \<Rightarrow> 0 | Some c \<Rightarrow> tsum c)) (dirty n)) p (root tree)"
    and t: "case ptr0 n of None \<Rightarrow> True | Some c \<Rightarrow> node_term c"
           "case ptr1 n of None \<Rightarrow> True | Some c \<Rightarrow> node_term c"
    by auto
  from node_count_modify[OF n] r
  have cnt: "node_count (root tree') + node_count n = node_count (root tree)"
    by simp
  obtain p0 p1 t0 dty where [simp]: "n = Node p0 p1 t0 dty" by (cases n)
  from c cnt have u: "unat (nodes tree) = node_count (root tree') + node_count n"
    by (simp add: counted_def)
  show ?thesis
  proof (cases p0)
    case None
    note p0 = this
    show ?thesis
    proof (cases p1)
      case None
      with p0 np n u show ?thesis by (auto simp: node_prune_def counted_def)
    next
      case (Some c1)
      with p0 np n u t show ?thesis
        by (auto simp: node_prune_def counted_def term_count unat_dec split: if_splits)
    qed
  next
    case (Some c0)
    note p0 = this
    show ?thesis
    proof (cases p1)
      case None
      with p0 np n u t show ?thesis
        by (auto simp: node_prune_def counted_def term_count unat_dec split: if_splits)
    next
      case (Some c1)
      with p0 np n u t show ?thesis
        by (auto simp: node_prune_def counted_def term_count unat_dec2 split: if_splits)
    qed
  qed
qed

lemma prune_counted:
  assumes "prune tree = Inr (r, tree')" "counted tree"
  shows "counted tree' \<and> maxnodes tree' = maxnodes tree \<and> (r = 0 \<longrightarrow> nodes tree' = 0)"
proof (cases "node_term (root tree)")
  case True
  with assms have "tree' = tree" "r = 0" by (auto simp: prune_def)
  moreover from True assms(2) have "unat (nodes tree) = 0"
    by (simp add: counted_def term_count)
  ultimately show ?thesis using assms(2) by (simp add: unat_eq_zero)
next
  case False
  with assms(1) obtain b :: best where b: "node_prune (best_node b) tree = Inr (r, tree')"
    by (auto simp: prune_def split: sum.splits)
  then have "r = 1" by (auto simp: node_prune_def split: option.splits sum.splits if_splits)
  with node_prune_counted[OF b assms(2)] show ?thesis by simp
qed

lemma prune_loop_counted:
  "prune_loop tree = Inr tree' \<Longrightarrow> counted tree \<Longrightarrow>
     counted tree' \<and> maxnodes tree' = maxnodes tree \<and> nodes tree' \<le> maxnodes tree * 9 div 10"
proof (induction tree rule: prune_loop.induct)
  case (1 tree)
  show ?case
  proof (cases "nodes tree > maxnodes tree * 9 div 10")
    case False
    with "1.prems" show ?thesis by (subst (asm) prune_loop.simps) (simp add: not_less)
  next
    case True
    with "1.prems" obtain r tree1 where p: "prune tree = Inr (r, tree1)"
      and rest: "if r = 0 then tree' = tree1 else prune_loop tree1 = Inr tree'"
      by (subst (asm) prune_loop.simps) (auto split: sum.splits if_splits)
    note pc = prune_counted[OF p "1.prems"(2)]
    show ?thesis
    proof (cases "r = 0")
      case True
      with rest pc show ?thesis by simp
    next
      case False
      with rest have "prune_loop tree1 = Inr tree'" by simp
      from "1.IH"[OF True p refl False this] pc show ?thesis by simp
    qed
  qed
qed

lemma ninety_percent_le: "(m :: u64) * 9 div 10 \<le> m"
proof -
  have "unat (m * 9 div 10) = (unat m * 9 mod 2 ^ 64) div 10"
    by (simp add: unat_div unat_word_ariths)
  also have "\<dots> \<le> unat m"
  proof (cases "unat m * 9 < 2 ^ 64")
    case True
    then show ?thesis by simp
  next
    case False
    have "(unat m * 9 mod 2 ^ 64) div 10 \<le> (2 ^ 64 - 1) div 10"
      by (rule div_le_mono) simp
    with False show ?thesis by simp
  qed
  finally show ?thesis by (simp add: word_le_nat_alt)
qed


lemma node_count_modify_same:
  assumes "\<And>n. node_count (f n) = node_count n"
  shows "node_count (modify f p r) = node_count r"
proof (cases "deref r p")
  case None
  then show ?thesis by (simp add: modify_dangling)
next
  case (Some n)
  from node_count_modify[OF this, of f] assms show ?thesis by simp
qed

lemma node_count_mark_dirty: "node_count (mark_dirty n) = node_count n"
  by (cases n) (simp add: mark_dirty_def)

lemma node_count_set_dirty: "node_count (set_dirty p r) = node_count r"
proof (induction p r rule: set_dirty.induct)
  case (1 this r)
  show ?case
    apply (subst set_dirty.simps)
    using 1 by (auto simp: Let_def node_count_modify_same node_count_mark_dirty split: option.splits)
qed

lemma node_add_count: "node_add p val r = Inr r' \<Longrightarrow> node_count r' = node_count r"
proof -
  have "node_count (Node (ptr0 n) (ptr1 n) (tsum n + val) (dirty n)) = node_count n" for n
    by (cases n) simp
  then show "node_add p val r = Inr r' \<Longrightarrow> node_count r' = node_count r"
    by (auto simp: node_add_def node_count_set_dirty node_count_modify_same split: option.splits)
qed

lemma cache_replace_counted:
  "cache_replace a addrlen p tree = Inr tree' \<Longrightarrow>
     root tree' = root tree \<and> nodes tree' = nodes tree \<and> maxnodes tree' = maxnodes tree"
  by (auto simp: cache_replace_def Let_def split: if_splits sum.splits)

lemma cache_search_counted:
  "cache_search a addrlen tree = Inr (r, tree') \<Longrightarrow>
     root tree' = root tree \<and> nodes tree' = nodes tree \<and> maxnodes tree' = maxnodes tree"
  by (auto simp: cache_search_def split: sum.splits option.splits)

text \<open>The walk of \<open>add\<close> creates at most one node per bit, and counts each one it creates.\<close>

lemma add_walk_counted:
  "add_walk a addrlen val addr_bits d p tree = Inr tree' \<Longrightarrow> counted tree \<Longrightarrow>
   node_count (root tree) + (addr_bits - d) < 2 ^ 64 \<Longrightarrow>
     counted tree' \<and> maxnodes tree' = maxnodes tree \<and>
     node_count (root tree') \<le> node_count (root tree) + (addr_bits - d)"
proof (induction a addrlen val addr_bits d p tree rule: add_walk.induct)
  case (1 a addrlen val addr_bits d p tree)
  from "1.prems"(1) have le: "\<not> d > addr_bits"
    by (subst (asm) add_walk.simps) (simp split: if_splits)
  show ?case
  proof (cases "d = addr_bits")
    case True
    with "1.prems"(1) obtain r where r: "node_add p val (root tree) = Inr r"
      "cache_replace a addrlen p (tree\<lparr>root := r\<rparr>) = Inr tree'"
      by (subst (asm) add_walk.simps) (auto split: sum.splits)
    from cache_replace_counted[OF r(2)] node_add_count[OF r(1)] "1.prems"(2) show ?thesis
      by (simp add: counted_def)
  next
    case False
    with le have lt: "d < addr_bits" by simp
    from False le "1.prems"(1) obtain b n where
      bn: "bit_addr a d = Inr b" "deref (root tree) p = Some n"
      by (subst (asm) add_walk.simps) (auto split: sum.splits option.splits)
    let ?grow = "\<lambda>b. tree\<lparr>root := modify (set_child b (Some new_node)) p (root tree),
                             nodes := nodes tree + 1,
                             ctr_added := ctr_added tree + 1\<rparr>"
    have grow: "counted (?grow b) \<and> node_count (root (?grow b)) = node_count (root tree) + 1"
      if "child n b = None" for b
    proof -
      from node_count_set_child[of b new_node n] that
      have "node_count (set_child b (Some new_node) n) = node_count n + 1"
        by (simp add: new_node_def)
      with node_count_modify[OF bn(2), of "set_child b (Some new_node)"]
      have c: "node_count (modify (set_child b (Some new_node)) p (root tree))
                 = node_count (root tree) + 1"
        by simp
      from "1.prems"(2,3) lt have "unat (nodes tree) + 1 < 2 ^ 64"
        by (simp add: counted_def)
      then have "unat (nodes tree + 1) = unat (nodes tree) + 1"
        by (simp add: unat_word_ariths)
      with c "1.prems"(2) show ?thesis by (simp add: counted_def)
    qed
    show ?thesis
    proof (cases b)
      case True
      define tree1 where "tree1 = (if ptr1 n = None then ?grow True else tree)"
      from "1.prems"(1) le False bn True
      have w: "add_walk a addrlen val addr_bits (d + 1) (p @ [True]) tree1 = Inr tree'"
        by (subst (asm) add_walk.simps) (simp add: tree1_def)
      have t1: "counted tree1" "maxnodes tree1 = maxnodes tree"
        "node_count (root tree1) \<le> node_count (root tree) + 1"
        using grow[of True] "1.prems"(2) by (auto simp: tree1_def child_def)
      with "1.prems"(3) lt have "node_count (root tree1) + (addr_bits - (d + 1)) < 2 ^ 64"
        by simp
      from "1.IH"(2)[OF le False bn(1) bn(2) _ tree1_def w t1(1) this] True t1 lt
      show ?thesis by (simp; arith)
    next
      case False
      note bF = this
      define tree1 where "tree1 = (if ptr0 n = None then ?grow False else tree)"
      from "1.prems"(1) le \<open>d \<noteq> addr_bits\<close> bn bF
      have w: "add_walk a addrlen val addr_bits (d + 1) (p @ [False]) tree1 = Inr tree'"
        by (subst (asm) add_walk.simps) (simp add: tree1_def)
      have t1: "counted tree1" "maxnodes tree1 = maxnodes tree"
        "node_count (root tree1) \<le> node_count (root tree) + 1"
        using grow[of False] "1.prems"(2) by (auto simp: tree1_def child_def)
      with "1.prems"(3) lt have "node_count (root tree1) + (addr_bits - (d + 1)) < 2 ^ 64"
        by simp
      from "1.IH"(1)[OF le \<open>d \<noteq> addr_bits\<close> bn(1) bn(2) _ tree1_def w t1(1) this] bF t1 lt
      show ?thesis by (simp; arith)
    qed
  qed
qed

lemma prune_shrinks:
  assumes "prune tree = Inr (r, tree')"
  shows "node_count (root tree') \<le> node_count (root tree)"
proof (cases "r = 0")
  case True
  with assms show ?thesis
    by (auto simp: prune_def node_prune_def split: if_splits sum.splits option.splits)
next
  case False
  from prune_progress[OF assms False] show ?thesis by simp
qed

lemma prune_loop_shrinks:
  "prune_loop tree = Inr tree' \<Longrightarrow> node_count (root tree') \<le> node_count (root tree)"
proof (induction tree rule: prune_loop.induct)
  case (1 tree)
  show ?case
  proof (cases "nodes tree > maxnodes tree * 9 div 10")
    case False
    with "1.prems" show ?thesis by (subst (asm) prune_loop.simps) simp
  next
    case True
    with "1.prems" obtain r tree1 where p: "prune tree = Inr (r, tree1)"
      and rest: "if r = 0 then tree' = tree1 else prune_loop tree1 = Inr tree'"
      by (subst (asm) prune_loop.simps) (auto split: sum.splits if_splits)
    show ?thesis
    proof (cases "r = 0")
      case True
      with rest prune_shrinks[OF p] show ?thesis by simp
    next
      case False
      with rest have "prune_loop tree1 = Inr tree'" by simp
      from "1.IH"[OF True p refl False this] prune_shrinks[OF p] show ?thesis by simp
    qed
  qed
qed

lemma prune_if_greater_counted:
  assumes "prune_if_greater limit tree = Inr tree'" "counted tree"
  shows "counted tree' \<and> maxnodes tree' = maxnodes tree \<and>
         node_count (root tree') \<le> node_count (root tree)"
proof (cases "maxnodes tree \<le> nodes tree")
  case True
  with assms(1) have "prune_loop tree = Inr tree'" by (simp add: prune_if_greater_def)
  from prune_loop_counted[OF this assms(2)] prune_loop_shrinks[OF this] show ?thesis by simp
next
  case False
  with assms show ?thesis by (simp add: prune_if_greater_def)
qed

lemma add_counted:
  assumes a: "add ADDRBYTES a addrlen val tree = Inr tree'" and c: "counted tree"
    and b: "node_count (root tree) + 8 * ADDRBYTES < 2 ^ 64"
  shows "counted tree' \<and> maxnodes tree' = maxnodes tree \<and>
         node_count (root tree') \<le> node_count (root tree) + 8 * ADDRBYTES"
proof -
  define alen where "alen = (if addrlen > ADDRBYTES then ADDRBYTES else addrlen)"
  have alen: "alen \<le> ADDRBYTES" by (simp add: alen_def)
  from a obtain tree1 where t1: "prune_if_greater (maxnodes tree) tree = Inr tree1"
    by (auto simp: add_def split: sum.splits)
  with a obtain hit tree2 where t2: "cache_search a alen tree1 = Inr (hit, tree2)"
    by (auto simp: add_def Let_def alen_def split: sum.splits)
  from prune_if_greater_counted[OF t1 c] cache_search_counted[OF t2]
  have c2: "counted tree2" "maxnodes tree2 = maxnodes tree"
    "node_count (root tree2) \<le> node_count (root tree)"
    by (simp_all add: counted_def)
  show ?thesis
  proof (cases hit)
    case None
    with a t1 t2 have w: "add_walk a alen val (alen * 8) 0 [] tree2 = Inr tree'"
      by (simp add: add_def Let_def alen_def)
    from c2(3) b alen have "node_count (root tree2) + (alen * 8 - 0) < 2 ^ 64" by simp
    from add_walk_counted[OF w c2(1) this] c2 alen show ?thesis by simp
  next
    case (Some i)
    with a t1 t2 obtain p r where "node_add p val (root tree2) = Inr r" "tree' = tree2\<lparr>root := r\<rparr>"
      by (auto simp: add_def Let_def alen_def split: option.splits sum.splits)
    with node_add_count[of p val "root tree2" r] c2 show ?thesis by (simp add: counted_def)
  qed
qed

lemma step_counted:
  assumes "step ADDRBYTES x tree = Inr tree'" "counted tree"
    "node_count (root tree) + 8 * ADDRBYTES < 2 ^ 64"
  shows "counted tree' \<and> maxnodes tree' = maxnodes tree \<and>
         node_count (root tree') \<le> node_count (root tree) + 8 * ADDRBYTES"
proof (cases x)
  case (Add a addrlen val)
  with assms add_counted[of ADDRBYTES a addrlen val tree tree'] show ?thesis by simp
next
  case Prune
  with assms(1) obtain r where p: "prune tree = Inr (r, tree')" by (auto split: sum.splits)
  from prune_counted[OF p assms(2)] prune_shrinks[OF p] show ?thesis by simp
next
  case (PruneIfGreater limit)
  with assms prune_if_greater_counted[of limit tree tree'] show ?thesis by simp
qed

lemma run_counted:
  "run ADDRBYTES ops tree = Inr tree' \<Longrightarrow> counted tree \<Longrightarrow>
   node_count (root tree) + 8 * ADDRBYTES * length ops < 2 ^ 64 \<Longrightarrow>
     counted tree' \<and> maxnodes tree' = maxnodes tree"
proof (induction ops arbitrary: tree)
  case Nil
  then show ?case by simp
next
  case (Cons x xs)
  from Cons.prems(1) obtain tree1 where t1: "step ADDRBYTES x tree = Inr tree1"
    "run ADDRBYTES xs tree1 = Inr tree'"
    by (auto split: sum.splits)
  from Cons.prems(3) have "node_count (root tree) + 8 * ADDRBYTES < 2 ^ 64"
    by (simp add: algebra_simps)
  from step_counted[OF t1(1) Cons.prems(2) this]
  have s: "counted tree1" "maxnodes tree1 = maxnodes tree"
    "node_count (root tree1) \<le> node_count (root tree) + 8 * ADDRBYTES"
    by simp_all
  with Cons.prems(3) have "node_count (root tree1) + 8 * ADDRBYTES * length xs < 2 ^ 64"
    by (simp add: algebra_simps)
  from Cons.IH[OF t1(2) s(1) this] s(2) show ?case by simp
qed

lemma new_counted: "counted (new_iptreet ADDRBYTES m)"
  by (simp add: counted_def new_iptreet_def new_node_def)

section \<open>The histogram and the total\<close>

text \<open>The depth of the deepest node below a node.\<close>

fun node_height :: "node \<Rightarrow> nat" where
  "node_height (Node p0 p1 t dty) =
     max (case p0 of None \<Rightarrow> 0 | Some c \<Rightarrow> 1 + node_height c)
         (case p1 of None \<Rightarrow> 0 | Some c \<Rightarrow> 1 + node_height c)"

lemma push_elem_counts:
  "push_elem ADDRBYTES d a n h = Inr h1 \<Longrightarrow>
     sum_list (map count h1) = sum_list (map count h) + tsum n"
  by (auto simp: push_elem_def nodesum_def split: if_splits sum.splits)

lemma get_histogram_counts:
  "get_histogram ADDRBYTES d a n h = Inr h' \<Longrightarrow> d + node_height n \<le> 129 \<Longrightarrow>
     sum_list (map count h') = sum_list (map count h) + node_sum n"
proof (induction n arbitrary: d a h h' rule: node_children_induct)
  case (Node p0 p1 t dty)
  let ?n = "Node p0 p1 t dty"
  from Node.prems(1) obtain h1 where p: "push_elem ADDRBYTES d a ?n h = Inr h1"
    by (auto split: sum.splits)
  from push_elem_counts[OF p] have h1: "sum_list (map count h1) = sum_list (map count h) + t"
    by simp
  show ?case
  proof (cases "d > max_histogram_depth")
    case True
    with Node.prems(2) have leaf: "p0 = None" "p1 = None"
      by (auto simp: max_histogram_depth_def split: option.splits)
    from Node.prems(1) True p have "h' = h1" by simp
    with h1 leaf show ?thesis by simp
  next
    case False
    with Node.prems(1) p obtain addr0 addr1 h2 where
      s0: "(case p0 of None \<Rightarrow> Inr h1
            | Some c0 \<Rightarrow> get_histogram ADDRBYTES (d + 1) addr0 c0 h1) = Inr h2"
      and s1: "(case p1 of None \<Rightarrow> Inr h2
            | Some c1 \<Rightarrow> get_histogram ADDRBYTES (d + 1) addr1 c1 h2) = Inr h'"
      by (auto split: sum.splits)
    have a0: "sum_list (map count h2)
        = sum_list (map count h1) + (case p0 of None \<Rightarrow> 0 | Some c \<Rightarrow> node_sum c)"
    proof (cases p0)
      case None
      with s0 show ?thesis by simp
    next
      case (Some c0)
      with Node.prems(2) have "d + 1 + node_height c0 \<le> 129" by simp
      from Node.IH(1)[OF Some _ this] s0 Some show ?thesis by simp
    qed
    have a1: "sum_list (map count h')
        = sum_list (map count h2) + (case p1 of None \<Rightarrow> 0 | Some c \<Rightarrow> node_sum c)"
    proof (cases p1)
      case None
      with s1 show ?thesis by simp
    next
      case (Some c1)
      with Node.prems(2) have "d + 1 + node_height c1 \<le> 129" by simp
      from Node.IH(2)[OF Some _ this] s1 Some show ?thesis by simp
    qed
    from a0 a1 h1 show ?thesis by (simp add: algebra_simps)
  qed
qed

lemma push_elem_returns:
  "length a = ADDRBYTES \<Longrightarrow> \<exists>h1. push_elem ADDRBYTES d a n h = Inr h1"
  by (simp add: push_elem_def memcpy_def)

text \<open>
  \<open>get_histogram\<close> returns when every depth at which it computes the addresses of the
  children is a bit of the buffer: \<open>setbit(addr1,depth)\<close> writes the byte \<open>depth / 8\<close> of
  \<open>addr1[ADDRBYTES]\<close>. In a buffer of more than 16 bytes that holds for every depth up to
  \<open>max_histogram_depth\<close>.
\<close>

lemma child_addrs_returns:
  assumes "length a = ADDRBYTES" "d < 8 * ADDRBYTES"
  shows "\<exists>addr0 addr1. child_addrs ADDRBYTES d a = Inr (addr0, addr1) \<and>
            length addr0 = ADDRBYTES \<and> length addr1 = ADDRBYTES"
proof -
  from assms(2) have "(d + 7) div 8 \<le> ADDRBYTES" "d div 8 < ADDRBYTES"
    by arith+
  with assms(1) show ?thesis
    by (simp add: child_addrs_def memcpy_def setbit_def)
qed

lemma get_histogram_returns:
  "length a = ADDRBYTES \<Longrightarrow> 16 < ADDRBYTES \<or> d + node_height n < 8 * ADDRBYTES \<Longrightarrow>
     \<not> isl (get_histogram ADDRBYTES d a n h)"
proof (induction n arbitrary: d a h rule: node_children_induct)
  case (Node p0 p1 t dty)
  from push_elem_returns[OF Node.prems(1)] obtain h1 where
    p: "push_elem ADDRBYTES d a (Node p0 p1 t dty) h = Inr h1" by blast
  show ?case
  proof (cases "d > max_histogram_depth")
    case True
    with p show ?thesis by simp
  next
    case False
    with Node.prems(2) have "d < 8 * ADDRBYTES"
      by (auto simp: max_histogram_depth_def)
    from child_addrs_returns[OF Node.prems(1) this] obtain addr0 addr1 where
      c: "child_addrs ADDRBYTES d a = Inr (addr0, addr1)"
      and len: "length addr0 = ADDRBYTES" "length addr1 = ADDRBYTES"
      by blast
    obtain h2 where h2: "(case p0 of None \<Rightarrow> Inr h1
            | Some c0 \<Rightarrow> get_histogram ADDRBYTES (d + 1) addr0 c0 h1) = Inr h2"
    proof (cases p0)
      case None
      with that show ?thesis by simp
    next
      case (Some c0)
      with Node.prems(2) have "16 < ADDRBYTES \<or> d + 1 + node_height c0 < 8 * ADDRBYTES"
        by auto
      from Node.IH(1)[OF Some len(1) this, of h1] that Some show ?thesis
        by (cases "get_histogram ADDRBYTES (d + 1) addr0 c0 h1") auto
    qed
    have "\<not> isl (case p1 of None \<Rightarrow> Inr h2
            | Some c1 \<Rightarrow> get_histogram ADDRBYTES (d + 1) addr1 c1 h2)"
    proof (cases p1)
      case None
      then show ?thesis by simp
    next
      case (Some c1)
      with Node.prems(2) have "16 < ADDRBYTES \<or> d + 1 + node_height c1 < 8 * ADDRBYTES"
        by auto
      from Node.IH(2)[OF Some len(2) this, of h2] Some show ?thesis
        by simp
    qed
    with h2 False p c show ?thesis by simp
  qed
qed

text \<open>
  The pair tree after \<open>add_pair\<close> of two all-zero 16-byte addresses with weight 1: a single
  path of 256 nodes below the root, all reached through \<open>ptr0\<close>.
\<close>

fun chain :: "bool \<Rightarrow> nat \<Rightarrow> node \<Rightarrow> node" where
  "chain dty 0 x = x"
| "chain dty (Suc k) x = Node (Some (chain dty k x)) None 0 dty"

definition deep_pair_tree :: iptreet where
  "deep_pair_tree =
     \<lparr>root = chain True 256 (Node None None 1 True), nodes = 256, maxnodes = 1000,
      ctr_added = 256, pruned = 0,
      cache = (replicate cache_size \<lparr>addr = replicate 32 0, ptr = None\<rparr>)
                [1 := \<lparr>addr = replicate 32 0, ptr = Some (replicate 256 False)\<rparr>],
      cachenext = 1, cache_hits = 0, cache_misses = 1\<rparr>"

text \<open>Two pairs of IPv4 addresses, interleaved, as keys of the pair tree.\<close>

definition pair_hosts :: "op list" where
  "pair_hosts = [Add [1,2,3,4,5,6,7,8] 8 5, Add [1,2,3,4,5,6,7,9] 8 7]"

section \<open>Bits of a buffer\<close>

lemma bitpos_eq: "bitpos i = 7 - i mod 8"
proof -
  have "(7::u64) = mask 3" by (simp add: mask_eq_exp_minus_1)
  then have "((7::u64) - of_nat i) AND 7 = take_bit 3 ((7::u64) - of_nat i)"
    by (simp add: take_bit_eq_mask)
  then have "int (bitpos i) = uint (take_bit 3 ((7::u64) - of_nat i))"
    by (simp add: bitpos_def)
  also have "\<dots> = uint ((7::u64) - of_nat i) mod 8"
    by (simp add: take_bit_eq_mod uint_mod)
  also have "\<dots> = ((7 - int i mod 2 ^ 64) mod 2 ^ 64) mod 8"
  proof -
    have "uint (of_nat i :: u64) = int i mod 2 ^ 64"
      by (simp add: uint_nat unat_of_nat zmod_int)
    then show ?thesis
      by (simp add: uint_word_ariths)
  qed
  also have "\<dots> = (7 - int i mod 2 ^ 64) mod 8"
    by (simp add: mod_mod_cancel)
  also have "\<dots> = (7 - (int i mod 2 ^ 64) mod 8) mod 8"
    by (simp add: mod_diff_right_eq)
  also have "(int i mod 2 ^ 64) mod 8 = int i mod 8"
    by (simp add: mod_mod_cancel)
  also have "(7 - int i mod 8) mod 8 = 7 - int i mod 8"
    by simp
  finally have "int (bitpos i) = 7 - int i mod 8" .
  also have "\<dots> = int (7 - i mod 8)"
    by (simp add: of_nat_diff zmod_int)
  finally show ?thesis by simp
qed

text \<open>Bit \<open>i\<close> of a buffer, bit 0 being the most significant bit of byte 0.\<close>

definition testb :: "u8 list \<Rightarrow> nat \<Rightarrow> bool" where
  "testb a i = bit (a ! (i div 8)) (7 - i mod 8)"

lemma bit_addr_testb: "i div 8 < length a \<Longrightarrow> bit_addr a i = Inr (testb a i)"
  by (simp add: bit_addr_def testb_def bitpos_eq push_bit_eq_mult and_exp_eq_0_iff_not_bit)

lemma same_byte_same_bit:
  assumes "j div 8 = i div 8"
  shows "(7 - j mod 8 = 7 - i mod 8) = (j = (i::nat))"
proof -
  define jm im where "jm = j mod 8" and "im = i mod 8"
  have "jm < 8" "im < 8" by (simp_all add: jm_def im_def)
  then have "(7 - jm = 7 - im) = (jm = im)" by arith
  moreover have "(jm = im) = (j = i)"
    using assms by (metis jm_def im_def div_mult_mod_eq)
  ultimately show ?thesis by (simp add: jm_def im_def)
qed

lemma setbit_Inr:
  assumes r: "i div 8 < length a"
  shows "\<exists>a'. setbit a i = Inr a' \<and> length a' = length a \<and>
     (\<forall>j. j div 8 < length a \<longrightarrow> testb a' j = (testb a j \<or> j = i))"
proof -
  let ?a' = "a[i div 8 := (a ! (i div 8)) OR push_bit (bitpos i) 1]"
  have "testb ?a' j = (testb a j \<or> j = i)" if "j div 8 < length a" for j
  proof (cases "j div 8 = i div 8")
    case False
    then have "j \<noteq> i" by auto
    with False show ?thesis by (simp add: testb_def)
  next
    case True
    have "bit (push_bit (7 - i mod 8) (1::u8)) (7 - j mod 8) = (7 - j mod 8 = 7 - i mod 8)"
      by (auto simp: bit_exp_iff possible_bit_word)
    with same_byte_same_bit[OF True] True r show ?thesis
      by (simp add: testb_def bitpos_eq bit_or_iff)
  qed
  with r show ?thesis by (simp add: setbit_def)
qed

lemma testb_zero: "j div 8 < n \<Longrightarrow> \<not> testb (replicate n 0) j"
  by (simp add: testb_def)

lemma testb_ext:
  assumes "length a = length b" "\<And>j. j div 8 < length a \<Longrightarrow> testb a j = testb b j"
  shows "a = b"
proof (rule nth_equalityI)
  show "length a = length b" by fact
next
  fix m assume m: "m < length a"
  show "a ! m = b ! m"
  proof (rule bit_word_eqI)
    fix k assume "k < LENGTH(8)"
    then have k: "k < 8" by simp
    define x where "x = 7 - k"
    from k have x: "x < 8" "k = 7 - x" by (simp_all add: x_def)
    let ?j = "8 * m + x"
    from x have "?j div 8 = m" "?j mod 8 = x" by simp_all
    with assms(2)[of ?j] m x show "bit (a ! m) k = bit (b ! m) k"
      by (simp add: testb_def)
  qed
qed

section \<open>The pair tree\<close>

text \<open>
  The loop of \<open>ip2tree::add_pair\<close>, \<open>for(size_t i=0;i<addrlen*8;i++)\<close>, on the 32-byte
  buffer \<open>a\<close>.
\<close>

function interleave_loop :: "u8 list \<Rightarrow> u8 list \<Rightarrow> nat \<Rightarrow> nat \<Rightarrow> u8 list \<Rightarrow> error + u8 list" where
  "interleave_loop addr1 addr2 n i a =
     (if i < n then
        (case bit_addr addr1 i of
           Inl e \<Rightarrow> Inl e
         | Inr b1 \<Rightarrow>
        (case (if b1 then setbit a (i * 2) else Inr a) of
           Inl e \<Rightarrow> Inl e
         | Inr a \<Rightarrow>
        (case bit_addr addr2 i of
           Inl e \<Rightarrow> Inl e
         | Inr b2 \<Rightarrow>
        (case (if b2 then setbit a (i * 2 + 1) else Inr a) of
           Inl e \<Rightarrow> Inl e
         | Inr a \<Rightarrow> interleave_loop addr1 addr2 n (i + 1) a))))
      else Inr a)"
  by pat_completeness auto
termination
  by (relation "measure (\<lambda>(addr1, addr2, n, i, a). n - i)") auto

declare interleave_loop.simps [simp del]

text \<open>The buffer \<open>add_pair\<close> builds, and \<open>ip2tree::add_pair\<close>.\<close>

definition interleave :: "u8 list \<Rightarrow> u8 list \<Rightarrow> nat \<Rightarrow> error + u8 list" where
  "interleave addr1 addr2 addrlen =
     interleave_loop addr1 addr2 (addrlen * 8) 0 (replicate 32 0)"

definition add_pair :: "u8 list \<Rightarrow> u8 list \<Rightarrow> nat \<Rightarrow> u64 \<Rightarrow> iptreet \<Rightarrow> error + iptreet" where
  "add_pair addr1 addr2 addrlen val tree =
     (case interleave addr1 addr2 addrlen of
        Inl e \<Rightarrow> Inl e
      | Inr a \<Rightarrow> add 32 a (addrlen * 2) val tree)"

text \<open>
  \<open>ip2tree::un_pair\<close>: its loop, \<open>for(size_t i=0;i<addrlen*8/2;i++)\<close>, on the two output
  buffers, and the two depths, computed in \<open>size_t\<close>. The parameter \<open>addr12len\<close> is not
  used by the source.
\<close>

function un_pair_loop ::
  "u8 list \<Rightarrow> u8 list \<Rightarrow> u8 list \<Rightarrow> nat \<Rightarrow> nat \<Rightarrow> error + (u8 list \<times> u8 list)" where
  "un_pair_loop addr1 addr2 a n i =
     (if i < n then
        (case bit_addr a (i * 2) of
           Inl e \<Rightarrow> Inl e
         | Inr b1 \<Rightarrow>
        (case (if b1 then setbit addr1 i else Inr addr1) of
           Inl e \<Rightarrow> Inl e
         | Inr addr1 \<Rightarrow>
        (case bit_addr a (i * 2 + 1) of
           Inl e \<Rightarrow> Inl e
         | Inr b2 \<Rightarrow>
        (case (if b2 then setbit addr2 i else Inr addr2) of
           Inl e \<Rightarrow> Inl e
         | Inr addr2 \<Rightarrow> un_pair_loop addr1 addr2 a n (i + 1)))))
      else Inr (addr1, addr2))"
  by pat_completeness auto
termination
  by (relation "measure (\<lambda>(addr1, addr2, a, n, i). n - i)") auto

declare un_pair_loop.simps [simp del]

definition un_pair ::
  "u8 list \<Rightarrow> u8 list \<Rightarrow> nat \<Rightarrow> u8 list \<Rightarrow> nat \<Rightarrow> u64
     \<Rightarrow> error + (u8 list \<times> u8 list \<times> u64 \<times> u64)" where
  "un_pair addr1 addr2 addr12len a addrlen d =
     (case un_pair_loop addr1 addr2 a (addrlen * 8 div 2) 0 of
        Inl e \<Rightarrow> Inl e
      | Inr (addr1, addr2) \<Rightarrow> Inr (addr1, addr2, (d + 1) div 2, d div 2))"

lemma maybe_setbit:
  assumes "i div 8 < length a"
  shows "\<exists>a'. (if b then setbit a i else Inr a) = Inr a' \<and> length a' = length a \<and>
     (\<forall>j. j div 8 < length a \<longrightarrow> testb a' j = (testb a j \<or> (b \<and> j = i)))"
  using setbit_Inr[OF assms] by (cases b) auto

lemma ex_from_split:
  assumes "(i::nat) < n"
  shows "(\<exists>k. i \<le> k \<and> k < n \<and> P k) = (P i \<or> (\<exists>k. i + 1 \<le> k \<and> k < n \<and> P k))"
proof
  assume "\<exists>k. i \<le> k \<and> k < n \<and> P k"
  then obtain k where k: "i \<le> k" "k < n" "P k" by blast
  show "P i \<or> (\<exists>k. i + 1 \<le> k \<and> k < n \<and> P k)"
  proof (cases "k = i")
    case True
    with k show ?thesis by simp
  next
    case False
    with k have "i + 1 \<le> k" by simp
    with k show ?thesis by blast
  qed
next
  assume "P i \<or> (\<exists>k. i + 1 \<le> k \<and> k < n \<and> P k)"
  then show "\<exists>k. i \<le> k \<and> k < n \<and> P k"
  proof
    assume "P i"
    with assms show ?thesis by blast
  next
    assume "\<exists>k. i + 1 \<le> k \<and> k < n \<and> P k"
    then obtain k where k: "i + 1 \<le> k" "k < n" "P k" by blast
    then have "i \<le> k" by simp
    with k show ?thesis by blast
  qed
qed

lemma interleave_loop_bits:
  assumes r1: "n \<le> 8 * length addr1" and r2: "n \<le> 8 * length addr2"
  shows "2 * n \<le> 8 * length a \<Longrightarrow>
    \<exists>a'. interleave_loop addr1 addr2 n i a = Inr a' \<and> length a' = length a \<and>
      (\<forall>j. j div 8 < length a \<longrightarrow>
         testb a' j = (testb a j \<or>
           (\<exists>k. i \<le> k \<and> k < n \<and>
              ((j = 2 * k \<and> testb addr1 k) \<or> (j = 2 * k + 1 \<and> testb addr2 k)))))"
proof (induction "n - i" arbitrary: i a)
  case 0
  then have "\<not> i < n" by simp
  then show ?case
    by (subst interleave_loop.simps) auto
next
  case (Suc m)
  then have lt: "i < n" by simp
  let ?P = "\<lambda>j k. (j = 2 * k \<and> testb addr1 k) \<or> (j = 2 * k + 1 \<and> testb addr2 k)"
  from lt r1 r2 have b1: "bit_addr addr1 i = Inr (testb addr1 i)"
    and b2: "bit_addr addr2 i = Inr (testb addr2 i)"
    by (simp_all add: bit_addr_testb less_mult_imp_div_less mult.commute)
  from lt Suc.prems have "(i * 2) div 8 < length a" "(i * 2 + 1) div 8 < length a"
    by (simp_all add: less_mult_imp_div_less mult.commute)
  note in_a = this
  from maybe_setbit[OF in_a(1), of "testb addr1 i"] obtain a1 where
    a1: "(if testb addr1 i then setbit a (i * 2) else Inr a) = Inr a1" "length a1 = length a"
      "\<And>j. j div 8 < length a \<Longrightarrow> testb a1 j = (testb a j \<or> (testb addr1 i \<and> j = i * 2))"
    by blast
  from in_a(2) a1(2) have "(i * 2 + 1) div 8 < length a1" by simp
  from maybe_setbit[OF this, of "testb addr2 i"] a1(2) obtain a2 where
    a2: "(if testb addr2 i then setbit a1 (i * 2 + 1) else Inr a1) = Inr a2" "length a2 = length a"
      "\<And>j. j div 8 < length a \<Longrightarrow> testb a2 j = (testb a1 j \<or> (testb addr2 i \<and> j = i * 2 + 1))"
    by auto
  from Suc.hyps(2) lt have m: "m = n - (i + 1)" by simp
  from Suc.prems a2(2) have "2 * n \<le> 8 * length a2" by simp
  from Suc.hyps(1)[OF m this] a2(2) obtain a' where
    a': "interleave_loop addr1 addr2 n (i + 1) a2 = Inr a'" "length a' = length a"
      "\<And>j. j div 8 < length a \<Longrightarrow>
         testb a' j = (testb a2 j \<or> (\<exists>k. i + 1 \<le> k \<and> k < n \<and> ?P j k))"
    by auto
  have run: "interleave_loop addr1 addr2 n i a = Inr a'"
    using lt b1 b2 a1(1) a2(1) a'(1) by (subst interleave_loop.simps) simp
  have "testb a' j = (testb a j \<or> (\<exists>k. i \<le> k \<and> k < n \<and> ?P j k))"
    if "j div 8 < length a" for j
  proof -
    have "testb a' j = (testb a j \<or> ?P j i \<or> (\<exists>k. i + 1 \<le> k \<and> k < n \<and> ?P j k))"
      using a'(3)[OF that] a2(3)[OF that] a1(3)[OF that] by (auto simp: mult.commute)
    then show ?thesis
      using ex_from_split[OF lt, of "?P j"] by blast
  qed
  with run a'(2) show ?case by blast
qed

lemma un_pair_loop_bits:
  assumes ra: "2 * n \<le> 8 * length a"
  shows "n \<le> 8 * length addr1 \<Longrightarrow> n \<le> 8 * length addr2 \<Longrightarrow>
    \<exists>o1 o2. un_pair_loop addr1 addr2 a n i = Inr (o1, o2) \<and>
      length o1 = length addr1 \<and> length o2 = length addr2 \<and>
      (\<forall>j. j div 8 < length addr1 \<longrightarrow>
         testb o1 j = (testb addr1 j \<or> (i \<le> j \<and> j < n \<and> testb a (2 * j)))) \<and>
      (\<forall>j. j div 8 < length addr2 \<longrightarrow>
         testb o2 j = (testb addr2 j \<or> (i \<le> j \<and> j < n \<and> testb a (2 * j + 1))))"
proof (induction "n - i" arbitrary: i addr1 addr2)
  case 0
  then have "\<not> i < n" by simp
  then show ?case
    by (subst un_pair_loop.simps) auto
next
  case (Suc m)
  then have lt: "i < n" by simp
  from lt ra have "(i * 2) div 8 < length a" "(i * 2 + 1) div 8 < length a"
    by (simp_all add: less_mult_imp_div_less mult.commute)
  then have b1: "bit_addr a (i * 2) = Inr (testb a (i * 2))"
    and b2: "bit_addr a (i * 2 + 1) = Inr (testb a (i * 2 + 1))"
    by (simp_all add: bit_addr_testb)
  from lt Suc.prems have in1: "i div 8 < length addr1" and in2: "i div 8 < length addr2"
    by (simp_all add: less_mult_imp_div_less mult.commute)
  from maybe_setbit[OF in1, of "testb a (i * 2)"] obtain o1 where
    o1: "(if testb a (i * 2) then setbit addr1 i else Inr addr1) = Inr o1"
      "length o1 = length addr1"
      "\<And>j. j div 8 < length addr1 \<Longrightarrow> testb o1 j = (testb addr1 j \<or> (testb a (i * 2) \<and> j = i))"
    by blast
  from maybe_setbit[OF in2, of "testb a (i * 2 + 1)"] obtain o2 where
    o2: "(if testb a (i * 2 + 1) then setbit addr2 i else Inr addr2) = Inr o2"
      "length o2 = length addr2"
      "\<And>j. j div 8 < length addr2 \<Longrightarrow>
         testb o2 j = (testb addr2 j \<or> (testb a (i * 2 + 1) \<and> j = i))"
    by blast
  from Suc.hyps(2) lt have m: "m = n - (i + 1)" by simp
  from Suc.prems o1(2) o2(2) have "n \<le> 8 * length o1" "n \<le> 8 * length o2" by simp_all
  from Suc.hyps(1)[OF m this] o1(2) o2(2) obtain r1 r2 where
    r: "un_pair_loop o1 o2 a n (i + 1) = Inr (r1, r2)"
      "length r1 = length addr1" "length r2 = length addr2"
      "\<And>j. j div 8 < length addr1 \<Longrightarrow>
         testb r1 j = (testb o1 j \<or> (i + 1 \<le> j \<and> j < n \<and> testb a (2 * j)))"
      "\<And>j. j div 8 < length addr2 \<Longrightarrow>
         testb r2 j = (testb o2 j \<or> (i + 1 \<le> j \<and> j < n \<and> testb a (2 * j + 1)))"
    by auto
  have run: "un_pair_loop addr1 addr2 a n i = Inr (r1, r2)"
    using lt b1 b2 o1(1) o2(1) r(1) by (subst un_pair_loop.simps) simp
  have "testb r1 j = (testb addr1 j \<or> (i \<le> j \<and> j < n \<and> testb a (2 * j)))"
    if "j div 8 < length addr1" for j
    using r(4)[OF that] o1(3)[OF that] lt by (auto simp: mult.commute Suc_le_eq order_le_less)
  moreover have "testb r2 j = (testb addr2 j \<or> (i \<le> j \<and> j < n \<and> testb a (2 * j + 1)))"
    if "j div 8 < length addr2" for j
    using r(5)[OF that] o2(3)[OF that] lt by (auto simp: mult.commute Suc_le_eq order_le_less)
  ultimately show ?case using run r(2,3) by blast
qed

lemma un_pair_depths:
  fixes d :: u8
  shows "unat (((ucast d :: u64) + 1) div 2) = (unat d + 1) div 2"
    and "unat ((ucast d :: u64) div 2) = unat d div 2"
proof -
  have small: "unat d < 256" using unsigned_less[of d, where ?'a = nat] by simp
  then have "unat d < 2 ^ 64" by simp
  then have d: "unat (ucast d :: u64) = unat d"
    by (simp add: unsigned_ucast_eq take_bit_nat_eq_self_iff)
  note small
  from small d have "unat ((ucast d :: u64) + 1) = unat d + 1"
    by (simp add: unat_word_ariths)
  then show "unat (((ucast d :: u64) + 1) div 2) = (unat d + 1) div 2"
    by (simp add: unat_div)
  from d show "unat ((ucast d :: u64) div 2) = unat d div 2"
    by (simp add: unat_div)
qed

section \<open>Textual rendering\<close>

text \<open>\<open>iptreet::itos\<close>: \<open>snprintf(buf,sizeof(buf),"%d",n)\<close>.\<close>

function digits :: "nat \<Rightarrow> string" where
  "digits n =
     (if n < 10 then [''0123456789'' ! n]
      else digits (n div 10) @ [''0123456789'' ! (n mod 10)])"
  by pat_completeness auto
termination
  by (relation "measure (\<lambda>n. n)") auto

declare digits.simps [simp del]

definition itos :: "int \<Rightarrow> string" where
  "itos n = (if n < 0 then CHR ''-'' # digits (nat (- n)) else digits (nat n))"

text \<open>\<open>iptreet::isipv4\<close>: true for \<open>addrlen==4\<close>, else whether \<open>addr[4..addrlen)\<close> is zero.\<close>

function isipv4_loop :: "u8 list \<Rightarrow> nat \<Rightarrow> nat \<Rightarrow> error + bool" where
  "isipv4_loop a addrlen i =
     (if i < addrlen then
        (if i < length a then
           (if a ! i \<noteq> 0 then Inr False else isipv4_loop a addrlen (i + 1))
         else Inl OutOfBounds)
      else Inr True)"
  by pat_completeness auto
termination
  by (relation "measure (\<lambda>(a, addrlen, i). addrlen - i)") auto

declare isipv4_loop.simps [simp del]

definition isipv4 :: "u8 list \<Rightarrow> nat \<Rightarrow> error + bool" where
  "isipv4 a addrlen = (if addrlen = 4 then Inr True else isipv4_loop a addrlen 4)"

text \<open>\<open>iptreet::ipv4\<close>: \<open>snprintf(buf,sizeof(buf),"%d.%d.%d.%d",a[0],a[1],a[2],a[3])\<close>.\<close>

definition ipv4 :: "u8 list \<Rightarrow> error + string" where
  "ipv4 a =
     (if length a < 4 then Inl OutOfBounds
      else Inr (itos (uint (a ! 0)) @ ''.'' @ itos (uint (a ! 1)) @ ''.'' @
                itos (uint (a ! 2)) @ ''.'' @ itos (uint (a ! 3))))"

text \<open>
  \<open>iptreet::ipv6\<close>: \<open>inet_ntop(AF_INET6,a,buf,sizeof(buf))\<close>, which reads 16 bytes. The
  library function is a parameter.
\<close>

definition ipv6 :: "(u8 list \<Rightarrow> string) \<Rightarrow> u8 list \<Rightarrow> error + string" where
  "ipv6 inet_ntop a = (if length a < 16 then Inl OutOfBounds else Inr (inet_ntop (take 16 a)))"

text \<open>\<open>iptreet::ipstr\<close>\<close>

definition ipstr :: "(u8 list \<Rightarrow> string) \<Rightarrow> u8 list \<Rightarrow> nat \<Rightarrow> nat \<Rightarrow> error + string" where
  "ipstr inet_ntop a addrlen d =
     (case isipv4 a addrlen of
        Inl e \<Rightarrow> Inl e
      | Inr v4 \<Rightarrow>
          if v4 then
            (case ipv4 a of
               Inl e \<Rightarrow> Inl e
             | Inr s \<Rightarrow> Inr (s @ (if d < ipv4_bits then ''/'' @ itos (int d) else '''')))
          else
            (case ipv6 inet_ntop a of
               Inl e \<Rightarrow> Inl e
             | Inr s \<Rightarrow> Inr (s @ (if d < ipv6_bits then ''/'' @ itos (int d) else ''''))))"

text \<open>A stand-in for \<open>inet_ntop\<close>: the eight groups in full, without zero compression.\<close>

definition hex2 :: "u8 \<Rightarrow> string" where
  "hex2 b = [''0123456789abcdef'' ! (unat b div 16), ''0123456789abcdef'' ! (unat b mod 16)]"

fun groups :: "u8 list \<Rightarrow> string" where
  "groups (h # l # x # xs) = hex2 h @ hex2 l @ '':'' @ groups (x # xs)"
| "groups [h, l] = hex2 h @ hex2 l"
| "groups xs = []"

definition plain_ntop :: "u8 list \<Rightarrow> string" where
  "plain_ntop a = groups a"


text \<open>The number a string of decimal digits denotes.\<close>

fun val_of :: "string \<Rightarrow> nat" where
  "val_of [] = 0"
| "val_of (c # cs) = (of_char c - 48) * 10 ^ length cs + val_of cs"

lemma val_of_append: "val_of (xs @ [c]) = 10 * val_of xs + (of_char c - 48)"
  by (induction xs) (auto simp: algebra_simps)

lemma digit_val: "n < 10 \<Longrightarrow> of_char (''0123456789'' ! n) - 48 = n"
proof -
  assume "n < 10"
  then consider "n = 0" | "n = 1" | "n = 2" | "n = 3" | "n = 4" | "n = 5" | "n = 6"
    | "n = 7" | "n = 8" | "n = 9" by atomize_elim arith
  then show ?thesis by cases simp_all
qed

lemma val_of_digits: "val_of (digits n) = n"
proof (induction n rule: digits.induct)
  case (1 n)
  show ?case
  proof (cases "n < 10")
    case True
    then show ?thesis by (subst digits.simps) (simp add: digit_val del: nth_Cons_numeral)
  next
    case False
    with 1 show ?thesis
      by (subst digits.simps) (simp add: val_of_append digit_val del: nth_Cons_numeral)
  qed
qed

section \<open>A pair of 16-byte addresses in the pair tree\<close>

text \<open>
  \<open>add_pair\<close> of the all-zero address with itself walks the 256 bits of the key through
  \<open>ptr0\<close>, creating one node per bit, and ends in \<open>deep_pair_tree\<close>.
\<close>

lemma chain_snoc: "chain dty (Suc k) x = chain dty k (Node (Some x) None 0 dty)"
  by (induction k) simp_all

lemma deref_chain: "deref (chain dty k x) (replicate k False) = Some x"
  by (induction k) (simp_all add: child_def)

lemma modify_chain: "modify f (replicate k False) (chain dty k x) = chain dty k (f x)"
  by (induction k) (simp_all add: child_def set_child_def)

lemma butlast_replicate_Suc: "butlast (replicate (Suc k) x) = replicate k x"
  by (induction k) simp_all

lemma set_dirty_chain:
  "\<not> dirty x \<Longrightarrow> set_dirty (replicate k False) (chain False k x) = chain True k (mark_dirty x)"
proof (induction k arbitrary: x)
  case 0
  then show ?case by (subst set_dirty.simps) simp
next
  case (Suc k)
  let ?x' = "Node (Some (mark_dirty x)) None 0 False"
  have "modify mark_dirty (replicate (Suc k) False) (chain False (Suc k) x)
              = chain False (Suc k) (mark_dirty x)"
    by (rule modify_chain)
  also have "\<dots> = chain False k ?x'"
    by (rule chain_snoc)
  finally have r': "modify mark_dirty (replicate (Suc k) False) (chain False (Suc k) x)
              = chain False k ?x'" .
  have "set_dirty (replicate (Suc k) False) (chain False (Suc k) x)
          = set_dirty (replicate k False) (chain False k ?x')"
  proof -
    have "deref (chain False (Suc k) x) (replicate (Suc k) False) = Some x"
      by (rule deref_chain)
    moreover have "butlast (replicate (Suc k) False) = replicate k False"
      by (rule butlast_replicate_Suc)
    moreover have "deref (chain False k ?x') (replicate k False) = Some ?x'"
      by (rule deref_chain)
    moreover have "replicate (Suc k) False \<noteq> []" by simp
    ultimately show ?thesis
      using Suc.prems r'
      by (subst set_dirty.simps) (simp del: replicate_Suc replicate.simps chain.simps)
  qed
  also have "\<dots> = chain True k (mark_dirty ?x')"
    by (rule Suc.IH) simp
  also have "\<dots> = chain True (Suc k) (mark_dirty x)"
  proof -
    have "mark_dirty ?x' = Node (Some (mark_dirty x)) None 0 True"
      by (simp add: mark_dirty_def)
    then show ?thesis by (simp only: chain_snoc)
  qed
  finally show ?case .
qed

lemma bit_addr_zero: "d div 8 < m \<Longrightarrow> bit_addr (replicate m 0) d = Inr False"
  by (simp add: bit_addr_def)

lemma add_walk_zero_key:
  assumes "root tree = chain False d new_node" "d \<le> 8 * m"
  shows "add_walk (replicate m 0) m val (8 * m) d (replicate d False) tree =
           cache_replace (replicate m 0) m (replicate (8 * m) False)
             (tree\<lparr>root := chain True (8 * m) (Node None None val True),
                   nodes := nodes tree + of_nat (8 * m - d),
                   ctr_added := ctr_added tree + of_nat (8 * m - d)\<rparr>)"
  using assms
proof (induction "8 * m - d" arbitrary: d tree)
  case 0
  then have d: "d = 8 * m" by simp
  have "node_add (replicate d False) val (chain False d new_node)
          = Inr (chain True d (Node None None val True))"
    by (simp add: node_add_def deref_chain modify_chain new_node_def set_dirty_chain mark_dirty_def
          del: chain.simps)
  with 0 d show ?case
    by (subst add_walk.simps) simp
next
  case (Suc k)
  then have lt: "d < 8 * m" by simp
  then have b: "bit_addr (replicate m 0) d = Inr False"
    by (simp add: bit_addr_zero less_mult_imp_div_less mult.commute)
  let ?tree1 = "tree\<lparr>root := chain False (Suc d) new_node, nodes := nodes tree + 1,
                     ctr_added := ctr_added tree + 1\<rparr>"
  have "modify (set_child False (Some new_node)) (replicate d False) (root tree)
               = chain False d (set_child False (Some new_node) new_node)"
    by (simp only: Suc.prems(1) modify_chain)
  also have "set_child False (Some new_node) new_node = Node (Some new_node) None 0 False"
    by (simp add: set_child_def new_node_def)
  also have "chain False d (Node (Some new_node) None 0 False) = chain False (Suc d) new_node"
    by (rule chain_snoc[symmetric])
  finally have grow: "modify (set_child False (Some new_node)) (replicate d False) (root tree)
               = chain False (Suc d) new_node" .
  have d0: "deref (root tree) (replicate d False) = Some new_node"
    by (simp only: Suc.prems(1) deref_chain)
  have p0: "ptr0 new_node = None" by (simp add: new_node_def)
  have "add_walk (replicate m 0) m val (8 * m) d (replicate d False) tree
          = add_walk (replicate m 0) m val (8 * m) (Suc d) (replicate (Suc d) False) ?tree1"
    using lt b d0 p0 grow
    by (subst add_walk.simps)
       (simp add: replicate_append_same del: chain.simps)
  also have "\<dots> = cache_replace (replicate m 0) m (replicate (8 * m) False)
             (?tree1\<lparr>root := chain True (8 * m) (Node None None val True),
                   nodes := nodes ?tree1 + of_nat (8 * m - Suc d),
                   ctr_added := ctr_added ?tree1 + of_nat (8 * m - Suc d)\<rparr>)"
  proof (rule Suc.hyps(1))
    show "k = 8 * m - Suc d" using Suc.hyps(2) by simp
    show "root ?tree1 = chain False (Suc d) new_node" by simp
    show "Suc d \<le> 8 * m" using lt by simp
  qed
  also have "?tree1\<lparr>root := chain True (8 * m) (Node None None val True),
                   nodes := nodes ?tree1 + of_nat (8 * m - Suc d),
                   ctr_added := ctr_added ?tree1 + of_nat (8 * m - Suc d)\<rparr>
        = tree\<lparr>root := chain True (8 * m) (Node None None val True),
                   nodes := nodes tree + of_nat (8 * m - d),
                   ctr_added := ctr_added tree + of_nat (8 * m - d)\<rparr>"
  proof -
    from lt have "8 * m - d = Suc (8 * m - Suc d)" by simp
    then show ?thesis by (simp add: algebra_simps)
  qed
  finally show ?case .
qed


lemma interleave_zero: "interleave (replicate 16 0) (replicate 16 0) 16 = Inr (replicate 32 0)"
  by code_simp

lemma cache_find_unused:
  "\<forall>e \<in> set es. ptr e = None \<Longrightarrow> cache_find es a addrlen i = Inr None"
  by (induction es arbitrary: i) simp_all

lemma add_pair_zero:
  "add_pair (replicate 16 0) (replicate 16 0) 16 1 (new_iptreet 32 1000) = Inr deep_pair_tree"
proof -
  let ?Z = "replicate 32 (0::u8)"
  let ?t0 = "new_iptreet 32 1000"
  let ?t1 = "?t0\<lparr>cache_misses := 1\<rparr>"
  have p: "prune_if_greater (maxnodes ?t0) ?t0 = Inr ?t0"
    by (simp add: prune_if_greater_def new_iptreet_def)
  have s: "cache_search ?Z 32 ?t0 = Inr (None, ?t1)"
    by (simp add: cache_search_def cache_find_unused new_iptreet_def)
  have "root ?t1 = chain False 0 new_node" "(0::nat) \<le> 8 * 32"
    by (simp_all add: new_iptreet_def)
  from add_walk_zero_key[OF this, of 1]
  have w: "add_walk ?Z 32 1 256 0 [] ?t1 =
           cache_replace ?Z 32 (replicate 256 False)
             (?t1\<lparr>root := chain True 256 (Node None None 1 True),
                   nodes := nodes ?t1 + 256, ctr_added := ctr_added ?t1 + 256\<rparr>)"
    by simp
  have c: "cache_replace ?Z 32 (replicate 256 False)
             (?t1\<lparr>root := chain True 256 (Node None None 1 True),
                   nodes := nodes ?t1 + 256, ctr_added := ctr_added ?t1 + 256\<rparr>)
           = Inr deep_pair_tree"
    by (simp add: cache_replace_def new_iptreet_def cache_size_def memcpy_def deep_pair_tree_def
          del: chain.simps)
  have "add 32 ?Z 32 1 ?t0 = add_walk ?Z 32 1 256 0 [] ?t1"
    unfolding add_def using p s by (simp add: Let_def)
  also note w
  also note c
  finally have "add 32 ?Z 32 1 ?t0 = Inr deep_pair_tree" .
  then show ?thesis
    by (simp add: add_pair_def interleave_zero)
qed

section \<open>Keys of different lengths\<close>

lemma chain_add: "chain dty (j + k) x = chain dty j (chain dty k x)"
  by (induction j) simp_all

lemma deref_chain_prefix: "deref (chain dty (d + k) x) (replicate d False) = Some (chain dty k x)"
  by (simp only: chain_add deref_chain)

lemma modify_chain_prefix:
  "modify f (replicate d False) (chain dty (d + k) x) = chain dty d (f (chain dty k x))"
  by (simp only: chain_add modify_chain)

lemma set_dirty_dirty: "deref r p = Some n \<Longrightarrow> dirty n \<Longrightarrow> set_dirty p r = r"
  by (subst set_dirty.simps) simp

lemma walk_uncached_zero_key:
  assumes "root tree = chain False d new_node" "d \<le> 8 * m"
  shows "walk_uncached (replicate m 0) val (8 * m) d (replicate d False) tree =
           Inr (tree\<lparr>root := chain True (8 * m) (Node None None val True),
                     nodes := nodes tree + of_nat (8 * m - d),
                     ctr_added := ctr_added tree + of_nat (8 * m - d)\<rparr>)"
  using assms
proof (induction "8 * m - d" arbitrary: d tree)
  case 0
  then have d: "d = 8 * m" by simp
  have "node_add (replicate d False) val (chain False d new_node)
          = Inr (chain True d (Node None None val True))"
    by (simp add: node_add_def deref_chain modify_chain new_node_def set_dirty_chain mark_dirty_def
          del: chain.simps)
  with 0 d show ?case
    by (subst walk_uncached.simps) simp
next
  case (Suc k)
  then have lt: "d < 8 * m" by simp
  then have b: "bit_addr (replicate m 0) d = Inr False"
    by (simp add: bit_addr_zero less_mult_imp_div_less mult.commute)
  let ?tree1 = "tree\<lparr>root := chain False (Suc d) new_node, nodes := nodes tree + 1,
                     ctr_added := ctr_added tree + 1\<rparr>"
  have "modify (set_child False (Some new_node)) (replicate d False) (root tree)
               = chain False d (set_child False (Some new_node) new_node)"
    by (simp only: Suc.prems(1) modify_chain)
  also have "set_child False (Some new_node) new_node = Node (Some new_node) None 0 False"
    by (simp add: set_child_def new_node_def)
  also have "chain False d (Node (Some new_node) None 0 False) = chain False (Suc d) new_node"
    by (rule chain_snoc[symmetric])
  finally have grow: "modify (set_child False (Some new_node)) (replicate d False) (root tree)
               = chain False (Suc d) new_node" .
  have d0: "deref (root tree) (replicate d False) = Some new_node"
    by (simp only: Suc.prems(1) deref_chain)
  have p0: "child new_node False = None" by (simp add: new_node_def child_def)
  have "walk_uncached (replicate m 0) val (8 * m) d (replicate d False) tree
          = walk_uncached (replicate m 0) val (8 * m) (Suc d) (replicate (Suc d) False) ?tree1"
    using lt b d0 p0 grow
    by (subst walk_uncached.simps)
       (simp add: replicate_append_same del: chain.simps)
  also have "\<dots> = Inr (?tree1\<lparr>root := chain True (8 * m) (Node None None val True),
                   nodes := nodes ?tree1 + of_nat (8 * m - Suc d),
                   ctr_added := ctr_added ?tree1 + of_nat (8 * m - Suc d)\<rparr>)"
  proof (rule Suc.hyps(1))
    show "k = 8 * m - Suc d" using Suc.hyps(2) by simp
    show "root ?tree1 = chain False (Suc d) new_node" by simp
    show "Suc d \<le> 8 * m" using lt by simp
  qed
  also have "?tree1\<lparr>root := chain True (8 * m) (Node None None val True),
                   nodes := nodes ?tree1 + of_nat (8 * m - Suc d),
                   ctr_added := ctr_added ?tree1 + of_nat (8 * m - Suc d)\<rparr>
        = tree\<lparr>root := chain True (8 * m) (Node None None val True),
                   nodes := nodes tree + of_nat (8 * m - d),
                   ctr_added := ctr_added tree + of_nat (8 * m - d)\<rparr>"
  proof -
    from lt have "8 * m - d = Suc (8 * m - Suc d)" by simp
    then show ?thesis by (simp add: algebra_simps)
  qed
  finally show ?case .
qed

text \<open>The walk along nodes that exist already, for an all-zero key.\<close>

lemma walk_uncached_zero_existing:
  assumes "root tree = chain True (8 * m + Suc k) x" "d \<le> 8 * m"
  shows "walk_uncached (replicate m 0) val (8 * m) d (replicate d False) tree =
           Inr (tree\<lparr>root := chain True (8 * m)
                   (Node (Some (chain True k x)) None val True)\<rparr>)"
  using assms
proof (induction "8 * m - d" arbitrary: d)
  case 0
  then have d: "d = 8 * m" by simp
  let ?n = "chain True (Suc k) x"
  let ?inc = "\<lambda>n. Node (ptr0 n) (ptr1 n) (tsum n + val) (dirty n)"
  have dr: "deref (root tree) (replicate (8 * m) False) = Some ?n"
    by (simp only: assms(1) deref_chain_prefix)
  have md: "modify ?inc (replicate (8 * m) False) (root tree) = chain True (8 * m) (?inc ?n)"
    by (simp only: assms(1) modify_chain_prefix)
  have inc: "?inc ?n = Node (Some (chain True k x)) None val True" by simp
  have "deref (chain True (8 * m) (?inc ?n)) (replicate (8 * m) False) = Some (?inc ?n)"
    by (rule deref_chain)
  then have "set_dirty (replicate (8 * m) False) (chain True (8 * m) (?inc ?n))
               = chain True (8 * m) (?inc ?n)"
    by (rule set_dirty_dirty) simp
  with dr md have "node_add (replicate (8 * m) False) val (root tree)
      = Inr (chain True (8 * m) (?inc ?n))"
    by (simp add: node_add_def del: chain.simps)
  with d inc show ?case
    by (subst walk_uncached.simps) (simp del: chain.simps)
next
  case (Suc j)
  then have lt: "d < 8 * m" by simp
  then have b: "bit_addr (replicate m 0) d = Inr False"
    by (simp add: bit_addr_zero less_mult_imp_div_less mult.commute)
  from lt have "8 * m + Suc k = d + Suc (8 * m - d + k)" by simp
  then have "deref (root tree) (replicate d False) = Some (chain True (Suc (8 * m - d + k)) x)"
    by (simp only: assms(1) deref_chain_prefix)
  then obtain n c where n: "deref (root tree) (replicate d False) = Some n" "child n False = Some c"
    by (simp add: child_def)
  have "walk_uncached (replicate m 0) val (8 * m) d (replicate d False) tree
          = walk_uncached (replicate m 0) val (8 * m) (Suc d) (replicate (Suc d) False) tree"
    using lt b n
    by (subst walk_uncached.simps) (simp add: replicate_append_same del: chain.simps)
  also have "\<dots> = Inr (tree\<lparr>root := chain True (8 * m)
                   (Node (Some (chain True k x)) None val True)\<rparr>)"
  proof (rule Suc.hyps(1))
    show "j = 8 * m - Suc d" using Suc.hyps(2) by simp
    show "root tree = chain True (8 * m + Suc k) x" by fact
    show "Suc d \<le> 8 * m" using lt by simp
  qed
  finally show ?case .
qed


text \<open>
  The IPv6 address \<open>::\<close> and then the IPv4 address 0.0.0.0, each with weight 1, in the
  base tree: the states the tree with its cache and the tree without one end in.
\<close>

definition v6_then_v4 :: "op list" where
  "v6_then_v4 = [Add (replicate 16 0) 16 1, Add (replicate 4 0) 4 1]"

definition v6_then_v4_cached :: iptreet where
  "v6_then_v4_cached =
     \<lparr>root = chain True 128 (Node None None 2 True), nodes = 128, maxnodes = 1000,
      ctr_added = 128, pruned = 0,
      cache = (replicate cache_size \<lparr>addr = replicate 16 0, ptr = None\<rparr>)
                [1 := \<lparr>addr = replicate 16 0, ptr = Some (replicate 128 False)\<rparr>],
      cachenext = 1, cache_hits = 1, cache_misses = 1\<rparr>"

definition v6_then_v4_uncached :: iptreet where
  "v6_then_v4_uncached =
     \<lparr>root = chain True 32 (Node (Some (chain True 95 (Node None None 1 True))) None 1 True),
      nodes = 128, maxnodes = 1000, ctr_added = 128, pruned = 0,
      cache = replicate cache_size \<lparr>addr = replicate 16 0, ptr = None\<rparr>,
      cachenext = 0, cache_hits = 0, cache_misses = 0\<rparr>"

lemma v6_then_v4_run: "run 16 v6_then_v4 (new_iptreet 16 1000) = Inr v6_then_v4_cached"
proof -
  let ?Z = "replicate 16 (0::u8)"
  let ?t0 = "new_iptreet 16 1000"
  let ?t1 = "?t0\<lparr>cache_misses := 1\<rparr>"
  let ?s1 = "\<lparr>root = chain True 128 (Node None None 1 True), nodes = 128, maxnodes = 1000,
      ctr_added = 128, pruned = 0,
      cache = (replicate cache_size \<lparr>addr = replicate 16 0, ptr = None\<rparr>)
                [1 := \<lparr>addr = replicate 16 0, ptr = Some (replicate 128 False)\<rparr>],
      cachenext = 1, cache_hits = 0, cache_misses = 1\<rparr>"
  have p: "prune_if_greater (maxnodes ?t0) ?t0 = Inr ?t0"
    by (simp add: prune_if_greater_def new_iptreet_def)
  have s: "cache_search ?Z 16 ?t0 = Inr (None, ?t1)"
    by (simp add: cache_search_def cache_find_unused new_iptreet_def)
  have "root ?t1 = chain False 0 new_node" "(0::nat) \<le> 8 * 16"
    by (simp_all add: new_iptreet_def)
  from add_walk_zero_key[OF this, of 1]
  have w: "add_walk ?Z 16 1 128 0 [] ?t1 =
           cache_replace ?Z 16 (replicate 128 False)
             (?t1\<lparr>root := chain True 128 (Node None None 1 True),
                   nodes := nodes ?t1 + 128, ctr_added := ctr_added ?t1 + 128\<rparr>)"
    by simp
  have c: "cache_replace ?Z 16 (replicate 128 False)
             (?t1\<lparr>root := chain True 128 (Node None None 1 True),
                   nodes := nodes ?t1 + 128, ctr_added := ctr_added ?t1 + 128\<rparr>)
           = Inr ?s1"
    by (simp add: cache_replace_def new_iptreet_def cache_size_def memcpy_def
          del: chain.simps)
  have "add 16 ?Z 16 1 ?t0 = add_walk ?Z 16 1 128 0 [] ?t1"
    unfolding add_def using p s by (simp add: Let_def)
  also note w
  also note c
  finally have first: "add 16 ?Z 16 1 ?t0 = Inr ?s1" .
  have p2: "prune_if_greater (maxnodes ?s1) ?s1 = Inr ?s1"
    by (simp add: prune_if_greater_def)
  have s2: "cache_search (replicate 4 0) 4 ?s1 = Inr (Some 1, ?s1\<lparr>cache_hits := 1\<rparr>)"
    by (simp add: cache_search_def cache_size_def memcmp_eq_def eval_nat_numeral)
  have dr: "deref (chain True 128 (Node None None 1 True)) (replicate 128 False)
              = Some (Node None None 1 True)"
    by (rule deref_chain)
  have md: "modify (\<lambda>n. Node (ptr0 n) (ptr1 n) (tsum n + 1) (dirty n)) (replicate 128 False)
              (chain True 128 (Node None None 1 True)) = chain True 128 (Node None None 2 True)"
    by (simp only: modify_chain) simp
  have "deref (chain True 128 (Node None None 2 True)) (replicate 128 False)
              = Some (Node None None 2 True)"
    by (rule deref_chain)
  then have sd: "set_dirty (replicate 128 False) (chain True 128 (Node None None 2 True))
              = chain True 128 (Node None None 2 True)"
    by (rule set_dirty_dirty) simp
  have na: "node_add (replicate 128 False) 1 (chain True 128 (Node None None 1 True))
              = Inr (chain True 128 (Node None None 2 True))"
    using dr md sd by (simp add: node_add_def del: chain.simps)
  have second: "add 16 (replicate 4 0) 4 1 ?s1 = Inr v6_then_v4_cached"
    unfolding add_def using p2 s2 na
    by (simp add: Let_def v6_then_v4_cached_def cache_size_def del: chain.simps)
  from first second show ?thesis
    by (simp add: v6_then_v4_def)
qed

lemma v6_then_v4_run_uncached:
  "run_uncached 16 v6_then_v4 (new_iptreet 16 1000) = Inr v6_then_v4_uncached"
proof -
  let ?t0 = "new_iptreet 16 1000"
  let ?u1 = "?t0\<lparr>root := chain True 128 (Node None None 1 True), nodes := 128,
                  ctr_added := 128\<rparr>"
  have p: "prune_if_greater (maxnodes ?t0) ?t0 = Inr ?t0"
    by (simp add: prune_if_greater_def new_iptreet_def)
  have "root ?t0 = chain False 0 new_node" "(0::nat) \<le> 8 * 16"
    by (simp_all add: new_iptreet_def)
  from walk_uncached_zero_key[OF this, of 1]
  have w: "walk_uncached (replicate 16 0) 1 128 0 [] ?t0 = Inr ?u1"
    by (simp add: new_iptreet_def)
  have first: "add_uncached 16 (replicate 16 0) 16 1 ?t0 = Inr ?u1"
    unfolding add_uncached_def using p w by (simp add: Let_def)
  have p2: "prune_if_greater (maxnodes ?u1) ?u1 = Inr ?u1"
    by (simp add: prune_if_greater_def new_iptreet_def)
  have "root ?u1 = chain True (8 * 4 + Suc 95) (Node None None 1 True)" "(0::nat) \<le> 8 * 4"
    by simp_all
  from walk_uncached_zero_existing[OF this, of 1]
  have w2: "walk_uncached (replicate 4 0) 1 32 0 [] ?u1 = Inr v6_then_v4_uncached"
    by (simp add: new_iptreet_def v6_then_v4_uncached_def del: chain.simps)
  have second: "add_uncached 16 (replicate 4 0) 4 1 ?u1 = Inr v6_then_v4_uncached"
    unfolding add_uncached_def using p2 w2 by (simp add: Let_def)
  from first second show ?thesis
    by (simp add: v6_then_v4_def)
qed

lemma v6_then_v4_tallies:
  "tally_at (replicate 16 0) 128 (Inr v6_then_v4_cached) = Some 2 \<and>
   tally_at (replicate 16 0) 32 (Inr v6_then_v4_cached) = Some 0 \<and>
   tally_at (replicate 16 0) 128 (Inr v6_then_v4_uncached) = Some 1 \<and>
   tally_at (replicate 16 0) 32 (Inr v6_then_v4_uncached) = Some 1"
  by code_simp

section \<open>The depth of a tree\<close>

text \<open>
  No call makes the tree deeper than the longest key it was given has bits: \<open>add\<close> creates
  nodes down to depth \<open>addr_bits\<close> only, and a prune removes nodes.
\<close>

lemma deref_height: "deref r p = Some n \<Longrightarrow> length p + node_height n \<le> node_height r"
proof (induction p arbitrary: r)
  case Nil
  then show ?case by simp
next
  case (Cons b p)
  obtain p0 p1 t dty where r: "r = Node p0 p1 t dty" by (cases r)
  from Cons.prems obtain c where c: "child r b = Some c" "deref c p = Some n"
    by (auto split: option.splits)
  from Cons.IH[OF c(2)] c(1) r show ?case
    by (cases b) (auto simp: child_def)
qed

lemma node_height_modify:
  "deref r p = Some n \<Longrightarrow> length p + node_height (f n) \<le> H \<Longrightarrow> node_height r \<le> H \<Longrightarrow>
     node_height (modify f p r) \<le> H"
proof (induction p arbitrary: r H)
  case Nil
  then show ?case by simp
next
  case (Cons b p)
  obtain p0 p1 t dty where r: "r = Node p0 p1 t dty" by (cases r)
  from Cons.prems(1) obtain c where c: "child r b = Some c" "deref c p = Some n"
    by (auto split: option.splits)
  from c(1) r Cons.prems(3) have hc: "1 + node_height c \<le> H"
    by (cases b) (auto simp: child_def)
  then have "node_height c \<le> H - 1" by simp
  moreover from Cons.prems(2) have "length p + node_height (f n) \<le> H - 1" by simp
  ultimately have "node_height (modify f p c) \<le> H - 1"
    using Cons.IH[OF c(2)] by blast
  with hc have "1 + node_height (modify f p c) \<le> H" by simp
  with c(1) r Cons.prems(3) show ?case
    by (cases b) (auto simp: child_def set_child_def)
qed

lemma node_height_modify_same:
  assumes "\<And>n. node_height (f n) = node_height n"
  shows "node_height (modify f p r) = node_height r"
proof (induction p arbitrary: r)
  case Nil
  then show ?case by (simp add: assms)
next
  case (Cons b p)
  obtain p0 p1 t dty where r: "r = Node p0 p1 t dty" by (cases r)
  with Cons.IH show ?case
    by (cases b) (auto simp: child_def set_child_def split: option.splits)
qed

lemma node_height_mark_dirty: "node_height (mark_dirty n) = node_height n"
  by (cases n) (simp add: mark_dirty_def)

lemma node_height_set_dirty: "node_height (set_dirty p r) = node_height r"
proof (induction p r rule: set_dirty.induct)
  case (1 this r)
  show ?case
    apply (subst set_dirty.simps)
    using 1 by (auto simp: Let_def node_height_modify_same node_height_mark_dirty split: option.splits)
qed

lemma node_add_height: "node_add p val r = Inr r' \<Longrightarrow> node_height r' = node_height r"
proof -
  have "node_height (Node (ptr0 n) (ptr1 n) (tsum n + val) (dirty n)) = node_height n" for n
    by (cases n) simp
  then show "node_add p val r = Inr r' \<Longrightarrow> node_height r' = node_height r"
    by (auto simp: node_add_def node_height_set_dirty node_height_modify_same split: option.splits)
qed

text \<open>The walk of \<open>add\<close> creates no node deeper than the key has bits.\<close>

lemma add_walk_height:
  "add_walk a addrlen val addr_bits d p tree = Inr tree' \<Longrightarrow> length p \<le> d \<Longrightarrow>
   addr_bits \<le> H \<Longrightarrow> node_height (root tree) \<le> H \<Longrightarrow> node_height (root tree') \<le> H"
proof (induction a addrlen val addr_bits d p tree rule: add_walk.induct)
  case (1 a addrlen val addr_bits d p tree)
  from "1.prems"(1) have le: "\<not> d > addr_bits"
    by (subst (asm) add_walk.simps) (simp split: if_splits)
  show ?case
  proof (cases "d = addr_bits")
    case True
    with "1.prems"(1) obtain r where r: "node_add p val (root tree) = Inr r"
      "cache_replace a addrlen p (tree\<lparr>root := r\<rparr>) = Inr tree'"
      by (subst (asm) add_walk.simps) (auto split: sum.splits)
    from cache_replace_counted[OF r(2)] node_add_height[OF r(1)] "1.prems"(4) show ?thesis
      by simp
  next
    case False
    with le have lt: "d < addr_bits" by simp
    from False le "1.prems"(1) obtain b n where
      bn: "bit_addr a d = Inr b" "deref (root tree) p = Some n"
      by (subst (asm) add_walk.simps) (auto split: sum.splits option.splits)
    let ?grow = "\<lambda>b. tree\<lparr>root := modify (set_child b (Some new_node)) p (root tree),
                             nodes := nodes tree + 1,
                             ctr_added := ctr_added tree + 1\<rparr>"
    have grow: "node_height (root (?grow b)) \<le> H" if "child n b = None" for b
    proof -
      obtain p0 p1 t dty where n: "n = Node p0 p1 t dty" by (cases n)
      from that n have "node_height (set_child b (Some new_node) n) \<le> max 1 (node_height n)"
        by (cases b) (auto simp: set_child_def child_def new_node_def)
      moreover from deref_height[OF bn(2)] "1.prems"(4)
      have "length p + node_height n \<le> H" by simp
      moreover from "1.prems"(2,3) lt have "length p + 1 \<le> H" by simp
      ultimately have "length p + node_height (set_child b (Some new_node) n) \<le> H"
        by arith
      from node_height_modify[of "root tree" p n "set_child b (Some new_node)" H,
          OF bn(2) this "1.prems"(4)]
      show ?thesis by simp
    qed
    from "1.prems"(2) have len: "length (p @ [x]) \<le> d + 1" for x :: bool by simp
    show ?thesis
    proof (cases b)
      case True
      define tree1 where "tree1 = (if ptr1 n = None then ?grow True else tree)"
      from "1.prems"(1) le False bn True
      have w: "add_walk a addrlen val addr_bits (d + 1) (p @ [True]) tree1 = Inr tree'"
        by (subst (asm) add_walk.simps) (simp add: tree1_def)
      have t1: "node_height (root tree1) \<le> H"
        using grow[of True] "1.prems"(4) by (auto simp: tree1_def child_def)
      from "1.IH"(2)[OF le False bn(1) bn(2) _ tree1_def w len "1.prems"(3) t1] True
      show ?thesis by simp
    next
      case False
      note bF = this
      define tree1 where "tree1 = (if ptr0 n = None then ?grow False else tree)"
      from "1.prems"(1) le \<open>d \<noteq> addr_bits\<close> bn bF
      have w: "add_walk a addrlen val addr_bits (d + 1) (p @ [False]) tree1 = Inr tree'"
        by (subst (asm) add_walk.simps) (simp add: tree1_def)
      have t1: "node_height (root tree1) \<le> H"
        using grow[of False] "1.prems"(4) by (auto simp: tree1_def child_def)
      from "1.IH"(1)[OF le \<open>d \<noteq> addr_bits\<close> bn(1) bn(2) _ tree1_def w len "1.prems"(3) t1] bF
      show ?thesis by simp
    qed
  qed
qed

lemma prune_height:
  assumes "prune tree = Inr (r, tree')"
  shows "node_height (root tree') \<le> node_height (root tree)"
proof (cases "node_term (root tree)")
  case True
  with assms show ?thesis by (simp add: prune_def)
next
  case False
  with assms obtain b :: best where b: "node_prune (best_node b) tree = Inr (r, tree')"
    by (auto simp: prune_def split: sum.splits)
  from node_prune_root[OF b] obtain n x where n: "deref (root tree) (best_node b) = Some n"
    and r: "root tree' = modify (\<lambda>_. Node None None x (dirty n)) (best_node b) (root tree)"
    by auto
  from deref_height[OF n]
  have "length (best_node b) + node_height (Node None None x (dirty n)) \<le> node_height (root tree)"
    by simp
  from node_height_modify[of "root tree" "best_node b" n "\<lambda>_. Node None None x (dirty n)"
      "node_height (root tree)", OF n this] r
  show ?thesis by simp
qed

lemma prune_loop_height:
  "prune_loop tree = Inr tree' \<Longrightarrow> node_height (root tree') \<le> node_height (root tree)"
proof (induction tree rule: prune_loop.induct)
  case (1 tree)
  show ?case
  proof (cases "nodes tree > maxnodes tree * 9 div 10")
    case False
    with "1.prems" show ?thesis by (subst (asm) prune_loop.simps) simp
  next
    case True
    with "1.prems" obtain r tree1 where p: "prune tree = Inr (r, tree1)"
      and rest: "if r = 0 then tree' = tree1 else prune_loop tree1 = Inr tree'"
      by (subst (asm) prune_loop.simps) (auto split: sum.splits if_splits)
    show ?thesis
    proof (cases "r = 0")
      case True
      with rest prune_height[OF p] show ?thesis by simp
    next
      case False
      with rest have "prune_loop tree1 = Inr tree'" by simp
      from "1.IH"[OF True p refl False this] prune_height[OF p] show ?thesis by simp
    qed
  qed
qed

lemma prune_if_greater_height:
  "prune_if_greater limit tree = Inr tree' \<Longrightarrow>
     node_height (root tree') \<le> node_height (root tree)"
  using prune_loop_height[of tree tree']
  by (auto simp: prune_if_greater_def split: if_splits)

text \<open>
  The number of bits \<open>add\<close> walks for a key of \<open>addrlen\<close> bytes (a longer key is cut to
  \<open>ADDRBYTES\<close>); the other calls walk none.
\<close>

fun key_bits :: "nat \<Rightarrow> op \<Rightarrow> nat" where
  "key_bits ADDRBYTES (Add a addrlen val) =
     (if addrlen > ADDRBYTES then ADDRBYTES else addrlen) * 8"
| "key_bits ADDRBYTES Prune = 0"
| "key_bits ADDRBYTES (PruneIfGreater limit) = 0"

lemma add_height:
  assumes a: "add ADDRBYTES a addrlen val tree = Inr tree'"
    and k: "(if addrlen > ADDRBYTES then ADDRBYTES else addrlen) * 8 \<le> H"
    and h: "node_height (root tree) \<le> H"
  shows "node_height (root tree') \<le> H"
proof -
  define alen where "alen = (if addrlen > ADDRBYTES then ADDRBYTES else addrlen)"
  from a obtain tree1 where t1: "prune_if_greater (maxnodes tree) tree = Inr tree1"
    by (auto simp: add_def split: sum.splits)
  with a obtain hit tree2 where t2: "cache_search a alen tree1 = Inr (hit, tree2)"
    by (auto simp: add_def Let_def alen_def split: sum.splits)
  from prune_if_greater_height[OF t1] cache_search_counted[OF t2] h
  have h2: "node_height (root tree2) \<le> H" by simp
  show ?thesis
  proof (cases hit)
    case None
    with a t1 t2 have w: "add_walk a alen val (alen * 8) 0 [] tree2 = Inr tree'"
      by (simp add: add_def Let_def alen_def)
    from k have "alen * 8 \<le> H" by (simp add: alen_def)
    from add_walk_height[OF w _ this h2] show ?thesis by simp
  next
    case (Some i)
    with a t1 t2 obtain p r where "node_add p val (root tree2) = Inr r" "tree' = tree2\<lparr>root := r\<rparr>"
      by (auto simp: add_def Let_def alen_def split: option.splits sum.splits)
    with node_add_height[of p val "root tree2" r] h2 show ?thesis by simp
  qed
qed

lemma step_height:
  assumes "step ADDRBYTES x tree = Inr tree'" "key_bits ADDRBYTES x \<le> H"
    "node_height (root tree) \<le> H"
  shows "node_height (root tree') \<le> H"
proof (cases x)
  case (Add a addrlen val)
  with assms add_height[of ADDRBYTES a addrlen val tree tree' H] show ?thesis by simp
next
  case Prune
  with assms(1) obtain r where p: "prune tree = Inr (r, tree')" by (auto split: sum.splits)
  from prune_height[OF p] assms(3) show ?thesis by simp
next
  case (PruneIfGreater limit)
  with assms prune_if_greater_height[of limit tree tree'] show ?thesis by simp
qed

lemma run_height:
  "run ADDRBYTES ops tree = Inr tree' \<Longrightarrow> \<forall>x \<in> set ops. key_bits ADDRBYTES x \<le> H \<Longrightarrow>
   node_height (root tree) \<le> H \<Longrightarrow> node_height (root tree') \<le> H"
proof (induction ops arbitrary: tree)
  case Nil
  then show ?case by simp
next
  case (Cons x xs)
  from Cons.prems(1) obtain tree1 where t1: "step ADDRBYTES x tree = Inr tree1"
    "run ADDRBYTES xs tree1 = Inr tree'"
    by (auto split: sum.splits)
  from Cons.prems(2) have k: "key_bits ADDRBYTES x \<le> H" "\<forall>x \<in> set xs. key_bits ADDRBYTES x \<le> H"
    by simp_all
  from Cons.IH[OF t1(2) k(2) step_height[OF t1(1) k(1) Cons.prems(3)]] show ?case .
qed

lemma new_height: "node_height (root (new_iptreet ADDRBYTES m)) = 0"
  by (simp add: new_iptreet_def new_node_def)

text \<open>
  A key of all 16 bytes in the base tree has its node at depth 128, where
  \<open>get_histogram\<close> executes \<open>setbit(addr1,128)\<close> on its 16-byte buffer (line 371).
\<close>

lemma full_width_key_histogram:
  "tree_histogram 16 v6_then_v4_cached = Inl OutOfBounds"
  by code_simp

section \<open>The selector's contract in the words of the specification\<close>

text \<open>
  Section 3 of the specification: \<open>subtree_sum(n) = n.local + subtree_sum(n.child0) +
  subtree_sum(n.child1)\<close>, absent children contributing 0, in the 64-bit unsigned
  arithmetic of the weights.
\<close>

function spec_subtree_sum :: "node option \<Rightarrow> u64" where
  "spec_subtree_sum None = 0"
| "spec_subtree_sum (Some (Node child0 child1 local dty)) =
     local + spec_subtree_sum child0 + spec_subtree_sum child1"
  by pat_completeness auto
termination
  by (relation "measure (\<lambda>x. case x of None \<Rightarrow> 0 | Some n \<Rightarrow> Suc (size n))")
     (auto split: option.splits)

text \<open>
  Section 3: \<open>terminal(n)\<close> is \<open>n.local > 0\<close> with both children absent. Section 4.3: a
  prune target is an interior node all of whose present children are terminal.
\<close>

definition spec_terminal :: "node \<Rightarrow> bool" where
  "spec_terminal n = (tsum n > 0 \<and> ptr0 n = None \<and> ptr1 n = None)"

definition spec_candidate :: "node \<Rightarrow> bool" where
  "spec_candidate n =
     ((ptr0 n \<noteq> None \<or> ptr1 n \<noteq> None)
      \<and> (case ptr0 n of None \<Rightarrow> True | Some c \<Rightarrow> spec_terminal c)
      \<and> (case ptr1 n of None \<Rightarrow> True | Some c \<Rightarrow> spec_terminal c))"

text \<open>
  \<open>node::term\<close> and \<open>node::sum\<close> compute the specification's \<open>terminal\<close> and
  \<open>subtree_sum\<close>.
\<close>

lemma node_term_spec: "node_term n = spec_terminal n"
  by (simp add: node_term_def spec_terminal_def)

lemma candidate_spec: "candidate n = spec_candidate n"
  by (simp add: candidate_def spec_candidate_def node_term_spec cong: option.case_cong)

lemma node_sum_spec: "node_sum n = spec_subtree_sum (Some n)"
proof (induction n rule: node_children_induct)
  case (Node p0 p1 t dty)
  then show ?case by (cases p0; cases p1) simp_all
qed

section \<open>Further scenarios\<close>

text \<open>
  The two hosts of scenario 4 with the weights exchanged, so that the lighter one is below
  \<open>ptr0\<close> of their common ancestor at depth 30: there the selector has two candidates,
  10.0.0.0/31 with sum 1 and 10.0.0.2/31 with sum 100.
\<close>

definition two_hosts_light_first :: "op list" where
  "two_hosts_light_first = [Add [10,0,0,1] 4 1, Add [10,0,0,2] 4 100]"

definition light_first_tree :: iptreet where
  "light_first_tree = projr (run 16 two_hosts_light_first (new_iptreet 16 1000))"

text \<open>The two hosts of scenario 4 in a tree of \<open>maxnodes = 36\<close>.\<close>

definition two_hosts_small :: iptreet where
  "two_hosts_small = projr (run 16 two_hosts (new_iptreet 16 36))"

section \<open>Claims\<close>

text \<open>
  C10 (empty-tree prune safety). The claim: \<open>prune()\<close> on a freshly constructed tree returns
  0 and leaves the tree unchanged, and the selector never dereferences an absent child.
  The code: the root of a fresh tree has no tally, so it is not terminal and \<open>prune\<close> calls
  the selector on it; with both child pointers null the selector reaches line 150 and
  evaluates \<open>ptr0->term()\<close> on the null pointer. This holds for every \<open>ADDRBYTES\<close> and
  every \<open>maxnodes\<close>.
\<close>

theorem prune_fresh_tree_null_deref:
  "prune (new_iptreet ADDRBYTES maxnodes0) = Inl NullDeref"
  by (simp add: prune_def new_iptreet_def new_node_def node_term_def)

text \<open>
  C1 (conservation of totals). For every sequence of \<open>add\<close>, \<open>prune\<close> and
  \<open>prune_if_greater\<close> calls on a new tree that runs to its end, the tree's \<open>sum()\<close> is
  the sum of the weights given to \<open>add\<close>, in \<open>uint64_t\<close> arithmetic.
\<close>

theorem conservation:
  "run ADDRBYTES ops (new_iptreet ADDRBYTES maxnodes0) = Inr tree \<Longrightarrow>
     tree_sum tree = sum_list (map weight ops)"
  by (simp add: run_sum tree_sum_new)

theorem conservation_witness:
  "\<not> isl (run 16 [Add [10,0,0,1] 4 100, Prune, Add [10,0,0,2] 4 1, PruneIfGreater 5,
                 Add [10,0,0,1] 4 7] (new_iptreet 16 1000)) \<and>
   tree_sum (projr (run 16 [Add [10,0,0,1] 4 100, Prune, Add [10,0,0,2] 4 1, PruneIfGreater 5,
                           Add [10,0,0,1] 4 7] (new_iptreet 16 1000))) = 108"
proof -
  let ?ops = "[Add [10,0,0,1] 4 100, Prune, Add [10,0,0,2] 4 1, PruneIfGreater 5,
               Add [10,0,0,1] 4 7]"
  have ok: "\<not> isl (run 16 ?ops (new_iptreet 16 1000))" by code_simp
  then obtain tree where t: "run 16 ?ops (new_iptreet 16 1000) = Inr tree"
    by (cases "run 16 ?ops (new_iptreet 16 1000)") auto
  from conservation[OF t] t show ?thesis by simp
qed

text \<open>
  C4 (prune selector minimality). When \<open>prune()\<close> is called on a tree whose root is not
  terminal and the selector returns, \<open>prune\<close> collapses the node the selector returned;
  that node is a candidate in the sense of the specification (it has a child and every
  child it has is terminal), its recorded depth is its depth in the tree, its
  \<open>subtree_sum\<close>, as section 3 of the specification defines it, is at most that of every
  candidate in the tree, and no candidate with the same \<open>subtree_sum\<close> lies deeper.
\<close>

theorem prune_selects_least:
  assumes "\<not> node_term (root tree)"
    and "best_to_prune (root tree) root_depth = Inr b"
  shows "prune tree = node_prune (best_node b) tree \<and>
         (\<exists>c. deref (root tree) (best_node b) = Some c \<and> spec_candidate c \<and>
              depth b = length (best_node b) \<and>
              (\<forall>p x. deref (root tree) p = Some x \<and> spec_candidate x \<longrightarrow>
                 spec_subtree_sum (Some c) \<le> spec_subtree_sum (Some x) \<and>
                 (spec_subtree_sum (Some x) = spec_subtree_sum (Some c) \<longrightarrow>
                    length p \<le> depth b)))"
proof -
  from assms have "prune tree = node_prune (best_node b) tree"
    by (simp add: prune_def)
  moreover from best_to_prune_selected[OF assms(2)]
  have "\<exists>c. deref (root tree) (best_node b) = Some c \<and> candidate c \<and>
              depth b = length (best_node b) \<and>
              (\<forall>p x. deref (root tree) p = Some x \<and> candidate x \<longrightarrow>
                 node_sum c \<le> node_sum x \<and>
                 (node_sum x = node_sum c \<longrightarrow> length p \<le> depth b))"
    by (auto simp: selected_def root_depth_def split: option.splits)
  ultimately show ?thesis by (simp add: candidate_spec node_sum_spec)
qed

theorem prune_selects_least_witness:
  "\<not> node_term (root light_first_tree) \<and>
   best_to_prune (root light_first_tree) root_depth
     = Inr \<lparr>best_node = prefix_bits [10,0,0,1] 0 31, depth = 31\<rparr> \<and>
   prune light_first_tree = node_prune (prefix_bits [10,0,0,1] 0 31) light_first_tree \<and>
   (\<exists>c. deref (root light_first_tree) (prefix_bits [10,0,0,1] 0 31) = Some c \<and>
        spec_candidate c \<and> spec_subtree_sum (Some c) = 1 \<and>
        (\<forall>p x. deref (root light_first_tree) p = Some x \<and> spec_candidate x \<longrightarrow>
           spec_subtree_sum (Some c) \<le> spec_subtree_sum (Some x) \<and>
           (spec_subtree_sum (Some x) = spec_subtree_sum (Some c) \<longrightarrow> length p \<le> 31))) \<and>
   (\<exists>x. deref (root light_first_tree) (prefix_bits [10,0,0,2] 0 31) = Some x \<and>
        spec_candidate x \<and> spec_subtree_sum (Some x) = 100)"
proof -
  let ?T = "projr (run 16 two_hosts_light_first (new_iptreet 16 1000))"
  have "\<not> node_term (root ?T)"
    by code_simp
  then have nt: "\<not> node_term (root light_first_tree)"
    by (simp add: light_first_tree_def)
  have "best_to_prune (root ?T) root_depth
          = Inr \<lparr>best_node = prefix_bits [10,0,0,1] 0 31, depth = 31\<rparr>"
    by code_simp
  then have b: "best_to_prune (root light_first_tree) root_depth
          = Inr \<lparr>best_node = prefix_bits [10,0,0,1] 0 31, depth = 31\<rparr>"
    by (simp add: light_first_tree_def)
  have "(case deref (root ?T) (prefix_bits [10,0,0,1] 0 31) of None \<Rightarrow> False
         | Some c \<Rightarrow> spec_subtree_sum (Some c) = 1)"
    by code_simp
  then have s1: "(case deref (root light_first_tree) (prefix_bits [10,0,0,1] 0 31) of
         None \<Rightarrow> False | Some c \<Rightarrow> spec_subtree_sum (Some c) = 1)"
    by (simp add: light_first_tree_def)
  have "(case deref (root ?T) (prefix_bits [10,0,0,2] 0 31) of None \<Rightarrow> False
         | Some x \<Rightarrow> spec_candidate x \<and> spec_subtree_sum (Some x) = 100)"
    by code_simp
  then have s2: "(case deref (root light_first_tree) (prefix_bits [10,0,0,2] 0 31) of
         None \<Rightarrow> False | Some x \<Rightarrow> spec_candidate x \<and> spec_subtree_sum (Some x) = 100)"
    by (simp add: light_first_tree_def)
  from prune_selects_least[OF nt b] nt b s1 s2 show ?thesis
    by (simp del: prefix_bits.simps split: option.splits)
qed

text \<open>
  C8 (prune scenario). The claim: with 10.0.0.1 (weight 100) and 10.0.0.2 (weight 1) in
  the tree, one \<open>prune()\<close> collapses the pair into their depth-31 parent, whose count
  becomes 101. The two addresses differ in bit 30 already (their last bytes are 00000001
  and 00000010), so they have no common depth-31 parent: after the prune neither
  depth-31 ancestor holds 101, and the leaf of 10.0.0.1 is still there with its 100.
\<close>

theorem prune_scenario_counterexample:
  "tally_at [10,0,0,1] 31 (run 16 (two_hosts @ [Prune]) (new_iptreet 16 1000)) \<noteq> Some 101 \<and>
   tally_at [10,0,0,2] 31 (run 16 (two_hosts @ [Prune]) (new_iptreet 16 1000)) \<noteq> Some 101 \<and>
   tally_at [10,0,0,1] 32 (run 16 (two_hosts @ [Prune]) (new_iptreet 16 1000)) = Some 100"
  by code_simp

text \<open>
  C8 as amended: the selector compares the two depth-31 candidates, 10.0.0.0/31 (sum 100)
  and 10.0.0.2/31 (sum 1), and the prune collapses only the leaf of 10.0.0.2 into its
  parent 10.0.0.2/31, whose count becomes 1; the histogram is then 10.0.0.1 at depth 32
  with count 100 and 10.0.0.2 at depth 31 with count 1.
\<close>

theorem prune_scenario_amended:
  "histogram_of 16 (run 16 (two_hosts @ [Prune]) (new_iptreet 16 1000)) =
     Inr [([10,0,0,1,0,0,0,0,0,0,0,0,0,0,0,0], 32, 100),
          ([10,0,0,2,0,0,0,0,0,0,0,0,0,0,0,0], 31, 1)] \<and>
   tally_at [10,0,0,2] 32 (run 16 (two_hosts @ [Prune]) (new_iptreet 16 1000)) = None"
  by code_simp

text \<open>
  C6 (zero-length key). The claim: \<open>add(addr, 0, w)\<close> adds \<open>w\<close> to the root. The code: the
  cache is searched first, and \<open>memcmp\<close> over 0 bytes is 0, so the first cache entry in
  use is a hit. After \<open>add(1.2.3.4, 4, 1)\<close>, the call \<open>add(1.2.3.4, 0, 5)\<close> adds 5 to the
  depth-32 node of 1.2.3.4 and the root's tally stays 0.
\<close>

theorem zero_length_key_goes_to_cached_node:
  "tally_at [1,2,3,4] 0 (run 16 [Add [1,2,3,4] 4 1, Add [1,2,3,4] 0 5] (new_iptreet 16 1000))
     = Some 0 \<and>
   tally_at [1,2,3,4] 32 (run 16 [Add [1,2,3,4] 4 1, Add [1,2,3,4] 0 5] (new_iptreet 16 1000))
     = Some 6"
  by code_simp

text \<open>
  C3 (cache transparency). The claim: the counts with the cache are those without it. The
  code: \<open>cache_search\<close> compares only the \<open>addrlen\<close> bytes of the key looked up and the
  entry does not record the length it was stored with, so a key that is a prefix of a
  cached longer key is a hit. After \<open>add(::, 16, 1)\<close>, the call \<open>add(0.0.0.0, 4, 1)\<close> hits
  the entry of the IPv6 address: with the cache the depth-128 node counts 2 and the
  depth-32 node 0, without it each counts 1. Likewise after \<open>add(1.2.3.4, 4, 1)\<close> the call
  \<open>add(1.2.3.4, 2, 1)\<close> counts at the depth-32 node with the cache and at the depth-16
  node without it.
\<close>

theorem cache_changes_counts:
  "tally_at (replicate 16 0) 128 (run 16 v6_then_v4 (new_iptreet 16 1000)) = Some 2 \<and>
   tally_at (replicate 16 0) 32 (run 16 v6_then_v4 (new_iptreet 16 1000)) = Some 0 \<and>
   tally_at (replicate 16 0) 128 (run_uncached 16 v6_then_v4 (new_iptreet 16 1000)) = Some 1 \<and>
   tally_at (replicate 16 0) 32 (run_uncached 16 v6_then_v4 (new_iptreet 16 1000)) = Some 1 \<and>
   histogram_of 16 (run 16 [Add [1,2,3,4] 4 1, Add [1,2,3,4] 2 1] (new_iptreet 16 1000))
     = Inr [([1,2,3,4,0,0,0,0,0,0,0,0,0,0,0,0], 32, 2)] \<and>
   histogram_of 16 (run_uncached 16 [Add [1,2,3,4] 4 1, Add [1,2,3,4] 2 1] (new_iptreet 16 1000))
     = Inr [([1,2,0,0,0,0,0,0,0,0,0,0,0,0,0,0], 16, 1),
            ([1,2,3,4,0,0,0,0,0,0,0,0,0,0,0,0], 32, 1)]"
proof -
  have "histogram_of 16 (run 16 [Add [1,2,3,4] 4 1, Add [1,2,3,4] 2 1] (new_iptreet 16 1000))
     = Inr [([1,2,3,4,0,0,0,0,0,0,0,0,0,0,0,0], 32, 2)] \<and>
   histogram_of 16 (run_uncached 16 [Add [1,2,3,4] 4 1, Add [1,2,3,4] 2 1] (new_iptreet 16 1000))
     = Inr [([1,2,0,0,0,0,0,0,0,0,0,0,0,0,0,0], 16, 1),
            ([1,2,3,4,0,0,0,0,0,0,0,0,0,0,0,0], 32, 1)]"
    by code_simp
  with v6_then_v4_tallies show ?thesis
    by (simp only: v6_then_v4_run v6_then_v4_run_uncached)
qed

text \<open>
  C2 (bounded size). The claim: for every limit \<open>L\<close>, if \<open>node_count \<ge> L\<close> then
  \<open>prune_if_greater(L)\<close> prunes down to nine tenths of \<open>max_nodes\<close>, and afterwards
  \<open>size() \<le> L\<close>. The source names the parameter \<open>limit\<close> and documents it (the
  comment above the function reads: prune the table to 90% of limit if at limit), but
  the body never reads it: it compares \<open>nodes\<close> with \<open>maxnodes\<close>. With 10.0.0.1 and
  10.0.0.2 in a tree of \<open>maxnodes = 36\<close> there are 34 nodes; \<open>prune_if_greater(33)\<close>
  finds 34 below 36, prunes nothing and leaves the size at 34, above the limit 33 and
  above nine tenths of \<open>maxnodes\<close>, which is 32.
\<close>

theorem prune_if_greater_ignores_limit:
  "run 16 two_hosts (new_iptreet 16 36) = Inr two_hosts_small \<and>
   tree_size two_hosts_small = 34 \<and> maxnodes two_hosts_small = 36 \<and>
   prune_if_greater 33 two_hosts_small = Inr two_hosts_small \<and>
   \<not> tree_size two_hosts_small \<le> 33 \<and>
   \<not> tree_size two_hosts_small \<le> maxnodes two_hosts_small * 9 div 10"
proof -
  let ?R = "run 16 two_hosts (new_iptreet 16 36)"
  have r: "\<not> isl ?R" by code_simp
  have "nodes (projr ?R) = 34 \<and> maxnodes (projr ?R) = 36" by code_simp
  then have n: "nodes two_hosts_small = 34" "maxnodes two_hosts_small = 36"
    by (simp_all add: two_hosts_small_def)
  from r have "?R = Inr two_hosts_small" by (simp add: two_hosts_small_def)
  with n show ?thesis by (simp add: prune_if_greater_def tree_size_def)
qed

text \<open>
  C5 (histogram totality). The claim: for every tree state, base tree or pair tree, the
  counts of the histogram add up to \<open>sum()\<close>. The code: \<open>get_histogram\<close> does not descend
  below depth 129 (\<open>if(depth>max_histogram_depth) return\<close>), and the pair tree is 256 bits
  deep. After \<open>add_pair\<close> of two all-zero 16-byte addresses with weight 1 on a new pair
  tree, the histogram is empty and the sum is 1.
\<close>

theorem histogram_total_counterexample:
  "add_pair (replicate 16 0) (replicate 16 0) 16 1 (new_iptreet 32 1000) = Inr deep_pair_tree \<and>
   tree_histogram 32 deep_pair_tree = Inr [] \<and> tree_sum deep_pair_tree = 1"
proof -
  have "tree_histogram 32 deep_pair_tree = Inr [] \<and> tree_sum deep_pair_tree = 1"
    by code_simp
  with add_pair_zero show ?thesis by simp
qed

text \<open>
  C5 as amended: for every tree state in which no node lies deeper than 129 bits and, in
  a tree of at most 16 address bytes, every node lies above depth \<open>8 * ADDRBYTES\<close> (so
  that every \<open>setbit(addr1,depth)\<close> stays inside its buffer), \<open>get_histogram\<close> returns
  and the counts of its entries add up to \<open>sum()\<close>. By \<open>run_height\<close> these are, among
  others, all states of a base tree whose keys are shorter than 16 bytes and all states
  of a pair tree whose keys are at most 16 bytes long.
\<close>

theorem histogram_total:
  assumes "node_height (root tree) \<le> 129"
    and "16 < ADDRBYTES \<or> node_height (root tree) < 8 * ADDRBYTES"
  shows "\<exists>h. tree_histogram ADDRBYTES tree = Inr h \<and> sum_list (map count h) = tree_sum tree"
proof -
  from get_histogram_returns[of "replicate ADDRBYTES 0" ADDRBYTES 0 "root tree" "[]"] assms(2)
  have "\<not> isl (tree_histogram ADDRBYTES tree)"
    by (simp add: tree_histogram_def)
  then obtain h where h: "tree_histogram ADDRBYTES tree = Inr h"
    by (cases "tree_histogram ADDRBYTES tree") auto
  with get_histogram_counts[of ADDRBYTES 0 "replicate ADDRBYTES 0" "root tree" "[]" h] assms(1)
  have "sum_list (map count h) = tree_sum tree"
    by (simp add: tree_histogram_def tree_sum_def)
  with h show ?thesis by simp
qed

theorem histogram_total_witness:
  "node_height (root two_hosts_tree) \<le> 129 \<and>
   node_height (root two_hosts_tree) < 8 * 16 \<and>
   \<not> isl (tree_histogram 16 two_hosts_tree) \<and>
   sum_list (map count (projr (tree_histogram 16 two_hosts_tree))) = tree_sum two_hosts_tree \<and>
   tree_sum two_hosts_tree = 101 \<and>
   node_height (root (projr (run 32 pair_hosts (new_iptreet 32 1000)))) \<le> 129 \<and>
   \<not> isl (tree_histogram 32 (projr (run 32 pair_hosts (new_iptreet 32 1000)))) \<and>
   sum_list (map count (projr (tree_histogram 32 (projr (run 32 pair_hosts (new_iptreet 32 1000))))))
     = tree_sum (projr (run 32 pair_hosts (new_iptreet 32 1000))) \<and>
   tree_sum (projr (run 32 pair_hosts (new_iptreet 32 1000))) = 12"
proof -
  let ?B = "projr (run 16 two_hosts (new_iptreet 16 1000))"
  let ?T = "projr (run 32 pair_hosts (new_iptreet 32 1000))"
  have "node_height (root ?B) = 32" by code_simp
  then have hb: "node_height (root two_hosts_tree) = 32" by (simp add: two_hosts_tree_def)
  have "tree_sum ?B = 101" by code_simp
  then have sb: "tree_sum two_hosts_tree = 101" by (simp add: two_hosts_tree_def)
  have ht: "node_height (root ?T) = 64" by code_simp
  have st: "tree_sum ?T = 12" by code_simp
  from hb histogram_total[of two_hosts_tree 16] obtain h1 where
    h1: "tree_histogram 16 two_hosts_tree = Inr h1"
        "sum_list (map count h1) = tree_sum two_hosts_tree"
    by auto
  from ht histogram_total[of ?T 32] obtain h2 where
    h2: "tree_histogram 32 ?T = Inr h2" "sum_list (map count h2) = tree_sum ?T"
    by auto
  from hb sb ht st h1 h2 show ?thesis by simp
qed

text \<open>
  C7 (interleave/de-interleave round trip). For two addresses of equal length \<open>L\<close> (at
  most 16 bytes, the buffer of \<open>add_pair\<close> having 32), the buffer \<open>add_pair\<close> builds has
  bit \<open>i\<close> of the first address as its bit \<open>2i\<close> and bit \<open>i\<close> of the second as its bit
  \<open>2i+1\<close>; \<open>un_pair\<close> on its first \<open>2L\<close> bytes, into zeroed buffers, gives the two
  addresses back, and for the depth \<open>d\<close> of a histogram entry the depths
  \<open>\<lceil>d/2\<rceil>\<close> and \<open>\<lfloor>d/2\<rfloor>\<close>, which add up to \<open>d\<close>.
\<close>

theorem interleave_roundtrip:
  fixes d :: u8
  assumes len: "length a1 = L" "length a2 = L" and L: "L \<le> 16"
  shows "\<exists>a. interleave a1 a2 L = Inr a \<and> length a = 32 \<and>
           (\<forall>i < L * 8. bit_addr a (2 * i) = bit_addr a1 i \<and>
                        bit_addr a (2 * i + 1) = bit_addr a2 i) \<and>
           (\<exists>depth1 depth2.
              un_pair (replicate L 0) (replicate L 0) L a (2 * L) (ucast d)
                = Inr (a1, a2, depth1, depth2) \<and>
              unat depth1 = (unat d + 1) div 2 \<and> unat depth2 = unat d div 2 \<and>
              unat depth1 + unat depth2 = unat d)"
proof -
  let ?z = "replicate 32 (0::u8)"
  from len L have "L * 8 \<le> 8 * length a1" "L * 8 \<le> 8 * length a2"
    "2 * (L * 8) \<le> 8 * length ?z"
    by simp_all
  from interleave_loop_bits[OF this, of 0] obtain a where
    a: "interleave a1 a2 L = Inr a" "length a = 32"
    and bits: "\<And>j. j div 8 < 32 \<Longrightarrow>
       testb a j = (testb ?z j \<or> (\<exists>k. 0 \<le> k \<and> k < L * 8 \<and>
           ((j = 2 * k \<and> testb a1 k) \<or> (j = 2 * k + 1 \<and> testb a2 k))))"
    by (auto simp: interleave_def)
  have even: "testb a (2 * i) = testb a1 i" and odd: "testb a (2 * i + 1) = testb a2 i"
    if "i < L * 8" for i
  proof -
    from that L have r: "(2 * i) div 8 < 32" "(2 * i + 1) div 8 < 32" by simp_all
    have "(\<exists>k. 0 \<le> k \<and> k < L * 8 \<and>
             ((2 * i = 2 * k \<and> testb a1 k) \<or> (2 * i = 2 * k + 1 \<and> testb a2 k)))
          = testb a1 i"
      using that by (auto; presburger)
    with bits[OF r(1)] r(1) show "testb a (2 * i) = testb a1 i"
      by (simp add: testb_zero)
    have "(\<exists>k. 0 \<le> k \<and> k < L * 8 \<and>
             ((2 * i + 1 = 2 * k \<and> testb a1 k) \<or> (2 * i + 1 = 2 * k + 1 \<and> testb a2 k)))
          = testb a2 i"
      using that by (auto; presburger)
    with bits[OF r(2)] r(2) show "testb a (2 * i + 1) = testb a2 i"
      by (simp add: testb_zero)
  qed
  have src: "bit_addr a (2 * i) = bit_addr a1 i \<and> bit_addr a (2 * i + 1) = bit_addr a2 i"
    if "i < L * 8" for i
  proof -
    from that L a(2) have "(2 * i) div 8 < length a" "(2 * i + 1) div 8 < length a" by simp_all
    moreover from that len have "i div 8 < length a1" "i div 8 < length a2" by simp_all
    ultimately show ?thesis using even[OF that] odd[OF that]
      by (simp add: bit_addr_testb)
  qed
  let ?o = "replicate L (0::u8)"
  from L a(2) have "2 * (L * 8) \<le> 8 * length a" "L * 8 \<le> 8 * length ?o" by simp_all
  from un_pair_loop_bits[OF this(1) this(2) this(2), of 0] obtain o1 o2 where
    o: "un_pair_loop ?o ?o a (L * 8) 0 = Inr (o1, o2)" "length o1 = L" "length o2 = L"
    and o1: "\<And>j. j div 8 < L \<Longrightarrow>
       testb o1 j = (testb ?o j \<or> (0 \<le> j \<and> j < L * 8 \<and> testb a (2 * j)))"
    and o2: "\<And>j. j div 8 < L \<Longrightarrow>
       testb o2 j = (testb ?o j \<or> (0 \<le> j \<and> j < L * 8 \<and> testb a (2 * j + 1)))"
    by auto
  have "o1 = a1"
  proof (rule testb_ext)
    show "length o1 = length a1" using o(2) len by simp
  next
    fix j assume "j div 8 < length o1"
    with o(2) have j: "j div 8 < L" by simp
    then have "j < L * 8" by (simp add: less_mult_imp_div_less)
    with o1[OF j] even[of j] j show "testb o1 j = testb a1 j"
      by (simp add: testb_zero)
  qed
  moreover have "o2 = a2"
  proof (rule testb_ext)
    show "length o2 = length a2" using o(3) len by simp
  next
    fix j assume "j div 8 < length o2"
    with o(3) have j: "j div 8 < L" by simp
    then have "j < L * 8" by (simp add: less_mult_imp_div_less)
    with o2[OF j] odd[of j] j show "testb o2 j = testb a2 j"
      by (simp add: testb_zero)
  qed
  ultimately have "un_pair ?o ?o L a (2 * L) (ucast d)
      = Inr (a1, a2, ((ucast d :: u64) + 1) div 2, (ucast d :: u64) div 2)"
    using o(1) by (simp add: un_pair_def mult.commute)
  moreover have "(unat d + 1) div 2 + unat d div 2 = unat d" by presburger
  ultimately show ?thesis
    using a src un_pair_depths[of d] by auto
qed

theorem interleave_roundtrip_witness:
  "\<exists>a. interleave [1,2,3,4] [5,6,7,8] 4 = Inr a \<and>
       (\<exists>depth1 depth2.
          un_pair (replicate 4 0) (replicate 4 0) 4 a (2 * 4) (ucast (64 :: u8))
            = Inr ([1,2,3,4], [5,6,7,8], depth1, depth2) \<and>
          unat depth1 = 32 \<and> unat depth2 = 32)"
proof -
  have "length [1,2,3,4::u8] = 4" "length [5,6,7,8::u8] = 4" "(4::nat) \<le> 16"
    by simp_all
  from interleave_roundtrip[OF this, of 64] show ?thesis
    by auto
qed

text \<open>
  C9 (textual rendering). The claim: \<open>ipstr\<close> appends \<open>"/d"\<close> except exactly when \<open>d\<close> is
  the full width of the address family. The code tests \<open>depth<ipv4_bits\<close> (and
  \<open>depth<ipv6_bits\<close>), so no suffix is appended for a depth above the width either: the
  address 1.2.3.4 followed by twelve zero bytes counts as IPv4 and at depth 40, which is
  neither 32 nor 128, it is rendered without a suffix.
\<close>

theorem ipstr_suffix_counterexample:
  "ipstr plain_ntop [1,2,3,4,0,0,0,0,0,0,0,0,0,0,0,0] 16 40 = Inr ''1.2.3.4''"
  by code_simp

text \<open>
  C9 as amended: the text \<open>ipstr\<close> returns is the rendered address (dotted decimal if
  \<open>isipv4\<close> holds, \<open>inet_ntop\<close>'s text otherwise) followed by \<open>"/"\<close> and the decimal
  digits of \<open>d\<close> exactly when \<open>d\<close> is below the full width of the family (32 or 128),
  and by nothing when \<open>d\<close> is the full width or more.
\<close>

theorem ipstr_suffix:
  assumes "ipstr inet_ntop a addrlen d = Inr s"
  shows "\<exists>v4 base. isipv4 a addrlen = Inr v4 \<and>
           (if v4 then ipv4 a else ipv6 inet_ntop a) = Inr base \<and>
           (d < (if v4 then ipv4_bits else ipv6_bits) \<longrightarrow>
              s = base @ ''/'' @ itos (int d) \<and> val_of (itos (int d)) = d) \<and>
           (d \<ge> (if v4 then ipv4_bits else ipv6_bits) \<longrightarrow> s = base)"
proof -
  from assms obtain v4 where v4: "isipv4 a addrlen = Inr v4"
    by (auto simp: ipstr_def split: sum.splits)
  have dec: "val_of (itos (int d)) = d"
    by (simp add: itos_def val_of_digits)
  show ?thesis
  proof (cases v4)
    case True
    with assms v4 obtain base where "ipv4 a = Inr base"
      "s = base @ (if d < ipv4_bits then ''/'' @ itos (int d) else [])"
      by (auto simp: ipstr_def split: sum.splits)
    with v4 True dec show ?thesis by auto
  next
    case False
    with assms v4 obtain base where "ipv6 inet_ntop a = Inr base"
      "s = base @ (if d < ipv6_bits then ''/'' @ itos (int d) else [])"
      by (auto simp: ipstr_def split: sum.splits)
    with v4 False dec show ?thesis by auto
  qed
qed

theorem ipstr_suffix_witness:
  "ipstr plain_ntop [10,0,0,2,0,0,0,0,0,0,0,0,0,0,0,0] 16 31 = Inr ''10.0.0.2/31'' \<and>
   (\<exists>v4 base. isipv4 [10,0,0,2,0,0,0,0,0,0,0,0,0,0,0,0] 16 = Inr v4 \<and>
      (if v4 then ipv4 [10,0,0,2,0,0,0,0,0,0,0,0,0,0,0,0]
       else ipv6 plain_ntop [10,0,0,2,0,0,0,0,0,0,0,0,0,0,0,0]) = Inr base \<and>
      (31 < (if v4 then ipv4_bits else ipv6_bits) \<longrightarrow>
         ''10.0.0.2/31'' = base @ ''/'' @ itos 31 \<and> val_of (itos 31) = 31) \<and>
      ((if v4 then ipv4_bits else ipv6_bits) \<le> 31 \<longrightarrow> ''10.0.0.2/31'' = base))"
proof -
  have e: "ipstr plain_ntop [10,0,0,2,0,0,0,0,0,0,0,0,0,0,0,0] 16 31 = Inr ''10.0.0.2/31''"
    by code_simp
  from ipstr_suffix[OF e] e show ?thesis by simp
qed

end
